theory Spec2Isabelle
  imports
    Main
    "HOL-Library.Char_ord"
    "HOL-Library.List_Lexorder"
    "HOL-Library.Sublist"
begin

section \<open>The authoritative zone engine of \<^verbatim>\<open>lib/zone.js\<close>\<close>

text \<open>
  A shallow embedding of \<^verbatim>\<open>src/lib/zone.js\<close>: the classes \<^verbatim>\<open>Zone\<close>,
  \<^verbatim>\<open>RecordMap\<close> and \<^verbatim>\<open>NameList\<close> and the helpers \<^verbatim>\<open>search\<close>,
  \<^verbatim>\<open>insert\<close>, \<^verbatim>\<open>insertString\<close>, \<^verbatim>\<open>findLower\<close>, \<^verbatim>\<open>isWild\<close> and
  \<^verbatim>\<open>convert\<close>. Objects mutated in place become values that are passed in and
  returned; a thrown error is the \<open>Inl\<close> of a sum; a loop whose termination the code
  does not guarantee is a partial function into \<open>option\<close>, where \<open>None\<close> is "never
  returns".
\<close>

subsection \<open>Errors\<close>

text \<open>
  \<^verbatim>\<open>assert(...)\<close> of \<^verbatim>\<open>bsert\<close> throws an assertion error;
  \<^verbatim>\<open>Zone.insert\<close> throws \<^verbatim>\<open>Error('Not a child of this zone.')\<close> and
  \<^verbatim>\<open>findLower\<close> throws \<^verbatim>\<open>Error('Not an NXDOMAIN.')\<close>.
\<close>

datatype error = AssertionError | NotAChild | NotAnNXDomain

subsection \<open>Constants of \<^verbatim>\<open>constants.js\<close>\<close>

text \<open>
  Modelled from the spec: \<^verbatim>\<open>constants.js\<close> is not among the sources; section 6 of
  the specification lists the record types and response codes the code refers to.
\<close>

definition types_A :: nat where "types_A = 1"
definition types_NS :: nat where "types_NS = 2"
definition types_CNAME :: nat where "types_CNAME = 5"
definition types_SOA :: nat where "types_SOA = 6"
definition types_MX :: nat where "types_MX = 15"
definition types_AAAA :: nat where "types_AAAA = 28"
definition types_SRV :: nat where "types_SRV = 33"
definition types_DNAME :: nat where "types_DNAME = 39"
definition types_DS :: nat where "types_DS = 43"
definition types_RRSIG :: nat where "types_RRSIG = 46"
definition types_NSEC :: nat where "types_NSEC = 47"
definition types_ANY :: nat where "types_ANY = 255"

definition codes_NOERROR :: nat where "codes_NOERROR = 0"
definition codes_NXDOMAIN :: nat where "codes_NXDOMAIN = 3"

text \<open>\<^verbatim>\<open>(type & 0xffff) === type\<close>: the type is an integer of 16 bits.\<close>

definition is_u16 :: "nat \<Rightarrow> bool" where
  "is_u16 t = (t < 65536)"

subsection \<open>Records of \<^verbatim>\<open>wire.js\<close>\<close>

text \<open>
  Modelled from the spec: \<^verbatim>\<open>wire.Record\<close> is not among the sources. A record is the
  tuple (owner name, type, class, ttl, rdata); of the rdata the code reads the fields
  \<^verbatim>\<open>target\<close> (CNAME, DNAME, SRV), \<^verbatim>\<open>ns\<close> (NS, SOA), \<^verbatim>\<open>mx\<close> (MX) and
  \<^verbatim>\<open>typeCovered\<close> (RRSIG). Reading a field the rdata does not have gives
  \<^verbatim>\<open>undefined\<close>, here \<open>None\<close>. Names are strings of bytes. \<^verbatim>\<open>deepClone\<close> and
  \<^verbatim>\<open>clone\<close> copy a record; values are not shared, so the model has no need of them.
\<close>

datatype rdata =
    TargetData string
  | NSData string
  | MXData string
  | SigData nat
  | OtherData string

record rr =
  rname :: string
  rtype :: nat
  rclass :: nat
  rttl :: nat
  rdata :: rdata

fun data_target :: "rdata \<Rightarrow> string option" where
  "data_target (TargetData t) = Some t"
| "data_target _ = None"

fun data_ns :: "rdata \<Rightarrow> string option" where
  "data_ns (NSData n) = Some n"
| "data_ns _ = None"

fun data_mx :: "rdata \<Rightarrow> string option" where
  "data_mx (MXData m) = Some m"
| "data_mx _ = None"

fun data_typeCovered :: "rdata \<Rightarrow> nat option" where
  "data_typeCovered (SigData t) = Some t"
| "data_typeCovered _ = None"

text \<open>\<^verbatim>\<open>String.prototype.toLowerCase\<close> on a string of ASCII bytes.\<close>

definition lower_char :: "char \<Rightarrow> char" where
  "lower_char c =
     (if CHR ''A'' \<le> c \<and> c \<le> CHR ''Z'' then char_of (of_char c + (32::nat)) else c)"

definition toLowerCase :: "string \<Rightarrow> string" where
  "toLowerCase s = map lower_char s"

text \<open>
  Modelled from the spec: \<^verbatim>\<open>Record.canonical()\<close> lowercases the owner and the names
  embedded in the rdata.
\<close>

fun canonical_data :: "rdata \<Rightarrow> rdata" where
  "canonical_data (TargetData t) = TargetData (toLowerCase t)"
| "canonical_data (NSData n) = NSData (toLowerCase n)"
| "canonical_data (MXData m) = MXData (toLowerCase m)"
| "canonical_data d = d"

definition canonical :: "rr \<Rightarrow> rr" where
  "canonical r = r\<lparr>rname := toLowerCase (rname r), rdata := canonical_data (rdata r)\<rparr>"

subsection \<open>Name utilities of \<^verbatim>\<open>util.js\<close>\<close>

text \<open>
  \<^verbatim>\<open>util.js\<close> is not among the sources. Section 6 of the specification names the
  utilities and section 3 fixes what a name is: labels separated by dots, ending in the
  root label, compared without case, ordered label by label from the rightmost label,
  bytewise within a label. Escaped dots are not modelled.
\<close>

text \<open>
  Modelled from the spec: \<^verbatim>\<open>util.isFQDN\<close> is missing; a fully qualified name ends
  in the root label.
\<close>

definition isFQDN :: "string \<Rightarrow> bool" where
  "isFQDN s = (s \<noteq> [] \<and> last s = CHR ''.'')"

text \<open>
  Modelled from the spec: \<^verbatim>\<open>util.split\<close> and \<^verbatim>\<open>util.countLabels\<close> are missing;
  \<open>split\<close> gives the offsets at which the labels of a name start, none for the root,
  and \<open>countLabels\<close> their number.
\<close>

definition split :: "string \<Rightarrow> nat list" where
  "split s =
     (if s = [] \<or> s = ''.'' then []
      else 0 # map Suc (filter (\<lambda>i. s ! i = CHR ''.'') [0..<length s - 1]))"

definition countLabels :: "string \<Rightarrow> nat" where
  "countLabels s = length (split s)"

text \<open>
  Modelled from the spec: \<^verbatim>\<open>util.from(name, labels, index)\<close> is missing; it selects
  the suffix of the name that starts at label \<open>index\<close>, a negative index counting from
  the right. Past the last label no label is selected and the suffix is the empty
  string, not the root name: this is the case of \<^verbatim>\<open>-this.count\<close> for a count of 0,
  where the index is \<open>-0\<close> and is not negative. An index that stays negative (more
  labels asked than the name has) selects the whole name, as
  \<^verbatim>\<open>substring(undefined)\<close> does. \<^verbatim>\<open>util.equal\<close> is missing as well: equality of
  names after lowercasing.
\<close>

definition from_labels :: "string \<Rightarrow> nat list \<Rightarrow> int \<Rightarrow> string" where
  "from_labels s labels index =
     (let i = (if index < 0 then index + int (length labels) else index) in
      if i \<ge> int (length labels) then []
      else if i < 0 then s
      else drop (labels ! nat i) s)"

definition equal_names :: "string \<Rightarrow> string \<Rightarrow> bool" where
  "equal_names a b = (toLowerCase a = toLowerCase b)"

text \<open>
  Modelled from the spec: \<^verbatim>\<open>util.splitName\<close> and \<^verbatim>\<open>util.isSubdomain\<close> are
  missing; \<open>splitName\<close> gives the labels of a name, the root label left out, and a
  child of a parent has the labels of the parent as its rightmost labels.
\<close>

fun split_dots :: "string \<Rightarrow> string \<Rightarrow> string list" where
  "split_dots acc [] = (if acc = [] then [] else [acc])"
| "split_dots acc (c # cs) =
     (if c = CHR ''.'' then acc # split_dots [] cs else split_dots (acc @ [c]) cs)"

definition splitName :: "string \<Rightarrow> string list" where
  "splitName s = (if s = ''.'' then [] else split_dots [] s)"

definition isSubdomain :: "string \<Rightarrow> string \<Rightarrow> bool" where
  "isSubdomain parent child =
     suffix (splitName (toLowerCase parent)) (splitName (toLowerCase child))"

text \<open>
  Modelled from the spec: \<^verbatim>\<open>util.compare\<close> is missing; it is the canonical order.
  The key of a name is the list of its lowercased labels from the rightmost one; keys
  are compared lexicographically, labels bytewise. It takes two names: where the code
  hands it \<^verbatim>\<open>undefined\<close> (an array read out of range), the call raises, which the
  callers below write as \<open>AssertionError\<close>.
\<close>

definition canon_key :: "string \<Rightarrow> string list" where
  "canon_key s = rev (splitName (toLowerCase s))"

definition compare :: "string \<Rightarrow> string \<Rightarrow> int" where
  "compare a b =
     (if canon_key a < canon_key b then - 1 else if canon_key a = canon_key b then 0 else 1)"

subsection \<open>Helpers of \<^verbatim>\<open>zone.js\<close>\<close>

definition isWild :: "string \<Rightarrow> bool" where
  "isWild s = (if length s < 2 then False else s ! 0 = CHR ''*'' \<and> s ! 1 = CHR ''.'')"

definition convert :: "string \<Rightarrow> rr \<Rightarrow> rr" where
  "convert qname r = (if \<not> isWild (rname r) then r else r\<lparr>rname := qname\<rparr>)"

text \<open>\<^verbatim>\<open>xs[i]\<close> of JavaScript: \<^verbatim>\<open>undefined\<close> outside the array.\<close>

definition js_index :: "'a list \<Rightarrow> int \<Rightarrow> 'a option" where
  "js_index xs i = (if 0 \<le> i \<and> i < int (length xs) then Some (xs ! nat i) else None)"

text \<open>
  The inner loop of \<^verbatim>\<open>RecordMap.filterMatches\<close>: for \<open>i\<close> from 1 to the length
  of \<open>y\<close>, label \<open>i\<close> from the right of \<open>y\<close> against label \<open>i\<close> from the right of
  \<open>x\<close>; the result is the flag \<^verbatim>\<open>push\<close>.
\<close>

function labels_match :: "string list \<Rightarrow> string list \<Rightarrow> nat \<Rightarrow> bool" where
  "labels_match y x i =
     (if i \<le> length y then
        (if js_index y (int (length y) - int i) \<noteq> js_index x (int (length x) - int i)
         then False
         else labels_match y x (i + 1))
      else True)"
  by pat_completeness auto
termination
  by (relation "measure (\<lambda>(y, x, i). length y + 1 - i)") auto

declare labels_match.simps [simp del]

fun filterMatches :: "string \<Rightarrow> rr list \<Rightarrow> rr list" where
  "filterMatches qname [] = []"
| "filterMatches qname (r # rs) =
     (if \<not> isWild (rname r) then r # filterMatches qname rs
      else
        let x = splitName qname; y = splitName (rname r) in
        if length x < length y then filterMatches qname rs
        else if labels_match (tl y) x 1 then r # filterMatches qname rs
        else filterMatches qname rs)"

subsection \<open>NameList: binary search in a sorted array\<close>

text \<open>
  \<^verbatim>\<open>search(items, key, compare, insert)\<close>. The position is
  \<^verbatim>\<open>(start + end) >>> 1\<close>: the sum is taken modulo \<open>2^32\<close> and halved. The element
  \<^verbatim>\<open>items[pos]\<close> goes to \<^verbatim>\<open>compare\<close>, which takes two names; on
  \<^verbatim>\<open>undefined\<close> its check of the argument fails. The loop is written as the code
  has it, with no bound on the number of rounds.
\<close>

partial_function (option) search_loop ::
  "string list \<Rightarrow> string \<Rightarrow> (string \<Rightarrow> string \<Rightarrow> int) \<Rightarrow> bool \<Rightarrow> int \<Rightarrow> int \<Rightarrow> (error + int) option"
where
  "search_loop items key cmpf ins start end' =
     (if start \<le> end' then
        (let pos = ((start + end') mod 4294967296) div 2 in
         case js_index items pos of
           None \<Rightarrow> Some (Inl AssertionError)
         | Some item \<Rightarrow>
             (let cmp = cmpf item key in
              if cmp = 0 then Some (Inr pos)
              else if cmp < 0 then search_loop items key cmpf ins (pos + 1) end'
              else search_loop items key cmpf ins start (pos - 1)))
      else if \<not> ins then Some (Inr (- 1))
      else Some (Inr start))"

definition search ::
  "string list \<Rightarrow> string \<Rightarrow> (string \<Rightarrow> string \<Rightarrow> int) \<Rightarrow> bool \<Rightarrow> (error + int) option"
where
  "search items key cmpf ins = search_loop items key cmpf ins 0 (int (length items) - 1)"

text \<open>
  \<^verbatim>\<open>insert(items, item, compare, uniq)\<close>: the new array and the index returned.
  \<^verbatim>\<open>unshift\<close>, \<^verbatim>\<open>push\<close> and \<^verbatim>\<open>splice(i, 0, item)\<close> all put the item at
  index \<open>i\<close>.
\<close>

definition insert_item ::
  "string list \<Rightarrow> string \<Rightarrow> (string \<Rightarrow> string \<Rightarrow> int) \<Rightarrow> bool \<Rightarrow> (error + string list \<times> int) option"
where
  "insert_item items item cmpf uniq =
     (case search items item cmpf True of
        None \<Rightarrow> None
      | Some (Inl e) \<Rightarrow> Some (Inl e)
      | Some (Inr i) \<Rightarrow>
          (if uniq \<and> i < int (length items) then
             (case js_index items i of
                None \<Rightarrow> Some (Inl AssertionError)
              | Some it \<Rightarrow>
                  if cmpf it item = 0 then Some (Inr (items, - 1))
                  else Some (Inr (take (nat i) items @ [item] @ drop (nat i) items, i)))
           else Some (Inr (take (nat i) items @ [item] @ drop (nat i) items, i))))"

definition insertString :: "string list \<Rightarrow> string \<Rightarrow> (error + string list \<times> bool) option" where
  "insertString items name' =
     (case insert_item items name' compare True of
        None \<Rightarrow> None
      | Some (Inl e) \<Rightarrow> Some (Inl e)
      | Some (Inr (items', i)) \<Rightarrow> Some (Inr (items', i \<noteq> - 1)))"

text \<open>
  \<^verbatim>\<open>findLower(items, name)\<close>: \<^verbatim>\<open>null\<close> is \<open>None\<close>. \<^verbatim>\<open>items[i]\<close> is read
  before \<open>i\<close> is compared with anything, and handed to \<^verbatim>\<open>util.compare\<close>.
\<close>

definition findLower :: "string list \<Rightarrow> string \<Rightarrow> (error + string option) option" where
  "findLower items name' =
     (if length items = 0 then Some (Inr None)
      else
        case search items name' compare True of
          None \<Rightarrow> None
        | Some (Inl e) \<Rightarrow> Some (Inl e)
        | Some (Inr i) \<Rightarrow>
            (case js_index items i of
               None \<Rightarrow> Some (Inl AssertionError)
             | Some match \<Rightarrow>
                 (let cmp = compare match name' in
                  if cmp = 0 then Some (Inl NotAnNXDomain)
                  else if cmp < 0 then Some (Inr (Some match))
                  else if i = 0 then Some (Inr None)
                  else Some (Inr (js_index items (i - 1))))))"

definition NameList_insert :: "string list \<Rightarrow> string \<Rightarrow> (error + string list \<times> bool) option" where
  "NameList_insert names' name' = insertString names' name'"

definition NameList_lower :: "string list \<Rightarrow> string \<Rightarrow> (error + string option) option" where
  "NameList_lower names' name' = findLower names' name'"

subsection \<open>RecordMap and Zone: the state\<close>

text \<open>
  A \<^verbatim>\<open>RecordMap\<close> holds two \<^verbatim>\<open>Map\<close>s: \<open>rrs\<close> from a type to its records and
  \<open>sigs\<close> from a covered type to its signatures. The key of \<open>sigs\<close> is read from
  \<^verbatim>\<open>rr.data.typeCovered\<close>, which can be \<^verbatim>\<open>undefined\<close>. The back reference
  \<^verbatim>\<open>this.zone\<close> is the zone passed to \<open>RecordMap_push\<close>.
\<close>

record recordMap =
  rrs :: "nat \<rightharpoonup> rr list"
  sigs :: "nat option \<rightharpoonup> rr list"

record zone =
  origin :: string
  count :: nat
  names :: "string \<rightharpoonup> recordMap"
  wild :: recordMap
  nsec :: "string list"
  zskpriv :: "string option"
  zskkey :: "rr option"

text \<open>
  Modelled from the spec: \<^verbatim>\<open>dnssec.sign(key, priv, rrset)\<close> is external and returns
  a signature record; every function that can sign takes it as its first argument.
\<close>

type_synonym signer = "rr \<Rightarrow> string \<Rightarrow> rr list \<Rightarrow> rr"

record message =
  code :: nat
  aa :: bool
  answer :: "rr list"
  authority :: "rr list"
  additional :: "rr list"

definition RecordMap_new :: recordMap where
  "RecordMap_new = \<lparr>rrs = Map.empty, sigs = Map.empty\<rparr>"

definition RecordMap_insert :: "recordMap \<Rightarrow> rr \<Rightarrow> recordMap" where
  "RecordMap_insert m r =
     (let m1 = m\<lparr>rrs := (rrs m)(rtype r \<mapsto>
                  (case rrs m (rtype r) of None \<Rightarrow> [] | Some l \<Rightarrow> l) @ [r])\<rparr>
      in if rtype r = types_RRSIG then
           (let typeCovered = data_typeCovered (rdata r) in
            m1\<lparr>sigs := (sigs m1)(typeCovered \<mapsto>
                  (case sigs m1 typeCovered of None \<Rightarrow> [] | Some l \<Rightarrow> l) @ [r])\<rparr>)
         else m1)"

text \<open>
  The block that \<^verbatim>\<open>RecordMap.push\<close> runs on the records it found, once for CNAME
  and once for the type asked: filter, convert and append the records, then the stored
  signatures of that type; with no stored signatures and both parts of the key, append a
  signature of the whole output list.
\<close>

definition emit :: "signer \<Rightarrow> zone \<Rightarrow> recordMap \<Rightarrow> string \<Rightarrow> nat \<Rightarrow> rr list \<Rightarrow> rr list \<Rightarrow> rr list" where
  "emit sg z m qname t found an =
     (let an1 = an @ map (convert qname) (filterMatches qname found) in
      case sigs m (Some t) of
        Some ss \<Rightarrow> an1 @ map (convert qname) (filterMatches qname ss)
      | None \<Rightarrow>
          (case (zskkey z, zskpriv z) of
             (Some k, Some p) \<Rightarrow> an1 @ [sg k p an1]
           | _ \<Rightarrow> an1))"

text \<open>
  \<^verbatim>\<open>RecordMap.push(name, type, an)\<close>; \<open>an\<close> is \<open>None\<close> when the caller passed
  \<^verbatim>\<open>undefined\<close>.
\<close>

definition RecordMap_push ::
  "signer \<Rightarrow> zone \<Rightarrow> recordMap \<Rightarrow> string \<Rightarrow> nat \<Rightarrow> rr list option \<Rightarrow> error + rr list"
where
  "RecordMap_push sg z m qname t an =
     (if \<not> isFQDN qname then Inl AssertionError
      else if \<not> is_u16 t then Inl AssertionError
      else
        case an of
          None \<Rightarrow> Inl AssertionError
        | Some an0 \<Rightarrow>
            (case (if t \<noteq> types_CNAME then rrs m types_CNAME else None) of
               Some (c # cs) \<Rightarrow> Inr (emit sg z m qname types_CNAME (c # cs) an0)
             | _ \<Rightarrow>
                 (case rrs m t of
                    Some (r # rs) \<Rightarrow> Inr (emit sg z m qname t (r # rs) an0)
                  | _ \<Rightarrow> Inr an0)))"

definition Zone_push ::
  "signer \<Rightarrow> zone \<Rightarrow> string \<Rightarrow> nat \<Rightarrow> rr list option \<Rightarrow> error + rr list"
where
  "Zone_push sg z qname t an =
     (if \<not> isFQDN qname then Inl AssertionError
      else if \<not> is_u16 t then Inl AssertionError
      else if an = None then Inl AssertionError
      else
        case names z qname of
          Some m \<Rightarrow> RecordMap_push sg z m qname t an
        | None \<Rightarrow> RecordMap_push sg z (wild z) qname t an)"

definition Zone_get :: "signer \<Rightarrow> zone \<Rightarrow> string \<Rightarrow> nat \<Rightarrow> error + rr list" where
  "Zone_get sg z qname t = Zone_push sg z qname t (Some [])"

definition has :: "zone \<Rightarrow> string \<Rightarrow> nat \<Rightarrow> error + bool" where
  "has z qname t =
     (if \<not> isFQDN qname then Inl AssertionError
      else if \<not> is_u16 t then Inl AssertionError
      else
        case names z qname of
          None \<Rightarrow> Inr False
        | Some m \<Rightarrow> Inr (rrs m t \<noteq> None))"

text \<open>
  \<^verbatim>\<open>Zone.glue(name, an, type, ns)\<close>. The name is read from a record's rdata and can be
  \<^verbatim>\<open>undefined\<close>; \<open>type\<close> and \<open>ns\<close> are \<open>None\<close> when the caller leaves them out;
  \<^verbatim>\<open>!type\<close> holds for \<^verbatim>\<open>undefined\<close> and for 0. The result is the pair of the two
  output lists.
\<close>

definition glue ::
  "signer \<Rightarrow> zone \<Rightarrow> string option \<Rightarrow> rr list \<Rightarrow> nat option \<Rightarrow> rr list option
     \<Rightarrow> error + rr list \<times> rr list option"
where
  "glue sg z target an t ns =
     (case target of
        None \<Rightarrow> Inl AssertionError
      | Some qname \<Rightarrow>
          if \<not> isFQDN qname then Inl AssertionError
          else
            (case (case t of
                     Some (Suc n) \<Rightarrow> Zone_push sg z qname (Suc n) (Some an)
                   | _ \<Rightarrow>
                       (case Zone_push sg z qname types_A (Some an) of
                          Inl e \<Rightarrow> Inl e
                        | Inr an1 \<Rightarrow> Zone_push sg z qname types_AAAA (Some an1))) of
               Inl e \<Rightarrow> Inl e
             | Inr an2 \<Rightarrow>
                 (if length an = length an2 then
                    (case Zone_push sg z qname types_SOA ns of
                       Inl e \<Rightarrow> Inl e
                     | Inr ns2 \<Rightarrow> Inr (an2, Some ns2))
                  else Inr (an2, ns))))"

text \<open>
  \<^verbatim>\<open>Zone.find(name, type)\<close>. The \<^verbatim>\<open>for (const rr of an)\<close> loop walks an array that
  \<^verbatim>\<open>glue\<close> appends to while it runs: the iterator reads the length again at every
  step, so the records appended are visited as well, and the loop has no bound.
  \<open>find_step\<close> is the \<^verbatim>\<open>switch\<close> on the type of one record, \<open>find_loop\<close> the loop
  from index \<open>i\<close>.
\<close>

definition find_step ::
  "signer \<Rightarrow> zone \<Rightarrow> nat \<Rightarrow> rr \<Rightarrow> rr list \<Rightarrow> rr list \<Rightarrow> rr list
     \<Rightarrow> error + rr list \<times> rr list \<times> rr list"
where
  "find_step sg z t r an ar ns =
     (if rtype r = types_CNAME \<or> rtype r = types_DNAME then
        (case glue sg z (data_target (rdata r)) an (Some t) (Some ns) of
           Inl e \<Rightarrow> Inl e
         | Inr (an', ns') \<Rightarrow> Inr (an', ar, (case ns' of Some l \<Rightarrow> l | None \<Rightarrow> ns)))
      else if rtype r = types_NS \<or> rtype r = types_SOA then
        (case glue sg z (data_ns (rdata r)) ar None None of
           Inl e \<Rightarrow> Inl e
         | Inr (ar', _) \<Rightarrow> Inr (an, ar', ns))
      else if rtype r = types_MX then
        (case glue sg z (data_mx (rdata r)) ar None None of
           Inl e \<Rightarrow> Inl e
         | Inr (ar', _) \<Rightarrow> Inr (an, ar', ns))
      else if rtype r = types_SRV then
        (case glue sg z (data_target (rdata r)) ar None None of
           Inl e \<Rightarrow> Inl e
         | Inr (ar', _) \<Rightarrow> Inr (an, ar', ns))
      else Inr (an, ar, ns))"

partial_function (option) find_loop ::
  "signer \<Rightarrow> zone \<Rightarrow> nat \<Rightarrow> nat \<Rightarrow> rr list \<Rightarrow> rr list \<Rightarrow> rr list
     \<Rightarrow> (error + rr list \<times> rr list \<times> rr list) option"
where
  "find_loop sg z t i an ar ns =
     (if i < length an then
        (case find_step sg z t (an ! i) an ar ns of
           Inl e \<Rightarrow> Some (Inl e)
         | Inr (an', ar', ns') \<Rightarrow> find_loop sg z t (i + 1) an' ar' ns')
      else Some (Inr (an, ar, ns)))"

definition find ::
  "signer \<Rightarrow> zone \<Rightarrow> string \<Rightarrow> nat \<Rightarrow> (error + rr list \<times> rr list \<times> rr list) option"
where
  "find sg z qname t =
     (case Zone_get sg z qname t of
        Inl e \<Rightarrow> Some (Inl e)
      | Inr an \<Rightarrow> find_loop sg z t 0 an [] [])"

definition proveNoData :: "signer \<Rightarrow> zone \<Rightarrow> rr list \<Rightarrow> error + rr list" where
  "proveNoData sg z ns = Zone_push sg z (origin z) types_NSEC (Some ns)"

text \<open>
  \<^verbatim>\<open>Zone.proveNameError(name, ns)\<close>; \<^verbatim>\<open>if (lower)\<close> is false for \<^verbatim>\<open>null\<close> and
  for the empty string.
\<close>

definition proveNameError ::
  "signer \<Rightarrow> zone \<Rightarrow> string \<Rightarrow> rr list \<Rightarrow> (error + rr list) option"
where
  "proveNameError sg z qname ns =
     (case NameList_lower (nsec z) qname of
        None \<Rightarrow> None
      | Some (Inl e) \<Rightarrow> Some (Inl e)
      | Some (Inr lower) \<Rightarrow>
          (case (case lower of
                   Some (c # cs) \<Rightarrow> Zone_push sg z (c # cs) types_NSEC (Some ns)
                 | _ \<Rightarrow> Inr ns) of
             Inl e \<Rightarrow> Some (Inl e)
           | Inr ns1 \<Rightarrow> Some (proveNoData sg z ns1)))"

text \<open>
  \<^verbatim>\<open>Zone.query(name, type)\<close>: the tuple \<^verbatim>\<open>[an, ns, ar, aa, ok]\<close>. In the last
  branch \<^verbatim>\<open>[ns, glue] = this.find(child, types.NS)\<close> takes the answer of the inner
  \<^verbatim>\<open>find\<close> as \<open>ns\<close> and its additional list as \<open>glue\<close>.
\<close>

definition query ::
  "signer \<Rightarrow> zone \<Rightarrow> string \<Rightarrow> nat
     \<Rightarrow> (error + rr list \<times> rr list \<times> rr list \<times> bool \<times> bool) option"
where
  "query sg z qname t =
     (if \<not> isFQDN qname then Some (Inl AssertionError)
      else if \<not> is_u16 t then Some (Inl AssertionError)
      else
        let labels = split qname;
            zone' = from_labels qname labels (- int (count z));
            authority' = equal_names zone' (origin z)
        in
          case find sg z qname t of
            None \<Rightarrow> None
          | Some (Inl e) \<Rightarrow> Some (Inl e)
          | Some (Inr (an, ar, ns)) \<Rightarrow>
              if length an > 0 then
                (if \<not> authority' then
                   (if t = types_NS then
                      (case Zone_push sg z qname types_DS (Some an) of
                         Inl e \<Rightarrow> Some (Inl e)
                       | Inr an' \<Rightarrow> Some (Inr ([], an', ar, False, True)))
                    else Some (Inr (an, [], ar, False, True)))
                 else Some (Inr (an, ns, ar, True, True)))
              else if authority' then
                (case Zone_get sg z (origin z) types_SOA of
                   Inl e \<Rightarrow> Some (Inl e)
                 | Inr ns0 \<Rightarrow>
                     (case proveNoData sg z ns0 of
                        Inl e \<Rightarrow> Some (Inl e)
                      | Inr ns1 \<Rightarrow> Some (Inr ([], ns1, [], True, False))))
              else
                (let index = int (count z) + 1;
                     child = from_labels qname labels (- index)
                 in
                   case find sg z child types_NS of
                     None \<Rightarrow> None
                   | Some (Inl e) \<Rightarrow> Some (Inl e)
                   | Some (Inr (ns', glue', _)) \<Rightarrow>
                       if length ns' = 0 then
                         (if origin z = ''.'' then
                            (case Zone_get sg z (origin z) types_SOA of
                               Inl e \<Rightarrow> Some (Inl e)
                             | Inr ns0 \<Rightarrow>
                                 (case proveNameError sg z child ns0 of
                                    None \<Rightarrow> None
                                  | Some (Inl e) \<Rightarrow> Some (Inl e)
                                  | Some (Inr ns1) \<Rightarrow> Some (Inr ([], ns1, [], False, False))))
                          else Some (Inr ([], [], [], False, False)))
                       else
                         (case Zone_push sg z child types_DS (Some ns') of
                            Inl e \<Rightarrow> Some (Inl e)
                          | Inr ns1 \<Rightarrow> Some (Inr ([], ns1, glue', False, True)))))"

text \<open>
  \<^verbatim>\<open>Zone.resolve(name, type)\<close>; a new \<^verbatim>\<open>Message\<close> has the code NOERROR.
\<close>

definition resolve :: "signer \<Rightarrow> zone \<Rightarrow> string \<Rightarrow> nat \<Rightarrow> (error + message) option" where
  "resolve sg z name' t =
     (if \<not> isFQDN name' then Some (Inl AssertionError)
      else if \<not> is_u16 t then Some (Inl AssertionError)
      else
        let qname = toLowerCase name';
            qtype = (if t = types_ANY then types_NS else t)
        in
          case query sg z qname qtype of
            None \<Rightarrow> None
          | Some (Inl e) \<Rightarrow> Some (Inl e)
          | Some (Inr (an, ns, ar, aa', ok)) \<Rightarrow>
              Some (Inr \<lparr>code = (if \<not> aa' \<and> \<not> ok then codes_NXDOMAIN else codes_NOERROR),
                         aa = aa', answer = an, authority = ns, additional = ar\<rparr>))"

subsection \<open>Building a zone\<close>

text \<open>
  \<^verbatim>\<open>new Zone(origin)\<close> with \<^verbatim>\<open>setOrigin\<close>: \<open>None\<close> is a missing origin.
\<close>

definition setOrigin :: "zone \<Rightarrow> string option \<Rightarrow> error + zone" where
  "setOrigin z origin' =
     (let o' = (case origin' of None \<Rightarrow> ''.'' | Some s \<Rightarrow> s) in
      if \<not> isFQDN o' then Inl AssertionError
      else Inr (z\<lparr>origin := toLowerCase o', count := countLabels (toLowerCase o')\<rparr>))"

definition Zone_new :: "string option \<Rightarrow> error + zone" where
  "Zone_new origin' =
     setOrigin \<lparr>origin = ''.'', count = 0, names = Map.empty, wild = RecordMap_new,
                nsec = [], zskpriv = None, zskkey = None\<rparr> origin'"

text \<open>
  \<^verbatim>\<open>Zone.setZSKFromString\<close>: decoding the string and making the key are external;
  the model takes their results.
\<close>

definition setZSK :: "zone \<Rightarrow> string \<Rightarrow> rr \<Rightarrow> zone" where
  "setZSK z priv key = z\<lparr>zskpriv := Some priv, zskkey := Some key\<rparr>"

definition Zone_insert :: "zone \<Rightarrow> rr \<Rightarrow> (error + zone) option" where
  "Zone_insert z record' =
     (let r = canonical record' in
      if rtype r \<noteq> types_A \<and> rtype r \<noteq> types_AAAA \<and> \<not> isSubdomain (origin z) (rname r)
      then Some (Inl NotAChild)
      else
        let z1 =
          (if isWild (rname r) then z\<lparr>wild := RecordMap_insert (wild z) r\<rparr>
           else
             z\<lparr>names := (names z)(rname r \<mapsto>
                  RecordMap_insert
                    (case names z (rname r) of None \<Rightarrow> RecordMap_new | Some m \<Rightarrow> m) r)\<rparr>)
        in
          if rtype r = types_NSEC then
            (case NameList_insert (nsec z1) (rname r) of
               None \<Rightarrow> None
             | Some (Inl e) \<Rightarrow> Some (Inl e)
             | Some (Inr (items, _)) \<Rightarrow> Some (Inr (z1\<lparr>nsec := items\<rparr>)))
          else Some (Inr z1))"

text \<open>Inserting a list of records in order, as \<^verbatim>\<open>Zone.fromString\<close> does.\<close>

fun insert_all :: "zone \<Rightarrow> rr list \<Rightarrow> (error + zone) option" where
  "insert_all z [] = Some (Inr z)"
| "insert_all z (r # rs) =
     (case Zone_insert z r of
        None \<Rightarrow> None
      | Some (Inl e) \<Rightarrow> Some (Inl e)
      | Some (Inr z1) \<Rightarrow> insert_all z1 rs)"

text \<open>
  \<^verbatim>\<open>Zone.fromString(origin, text)\<close> after the external parser: a new zone of that
  origin with the records inserted in order.
\<close>

definition load :: "string \<Rightarrow> rr list \<Rightarrow> (error + zone) option" where
  "load origin' rs =
     (case Zone_new (Some origin') of
        Inl e \<Rightarrow> Some (Inl e)
      | Inr z \<Rightarrow> insert_all z rs)"

definition clearRecords :: "zone \<Rightarrow> zone" where
  "clearRecords z = z\<lparr>names := Map.empty, wild := RecordMap_new, nsec := []\<rparr>"

definition clear :: "zone \<Rightarrow> zone" where
  "clear z = clearRecords (z\<lparr>origin := ''.'', count := 0\<rparr>)"

text \<open>The zones that the operations above can produce.\<close>

inductive reachable :: "zone \<Rightarrow> bool" where
  new: "Zone_new orig = Inr z \<Longrightarrow> reachable z"
| ins: "reachable z \<Longrightarrow> Zone_insert z r = Some (Inr z') \<Longrightarrow> reachable z'"
| zsk: "reachable z \<Longrightarrow> reachable (setZSK z priv key)"
| org: "reachable z \<Longrightarrow> setOrigin z orig = Inr z' \<Longrightarrow> reachable z'"
| clr: "reachable z \<Longrightarrow> reachable (clear z)"
| clrr: "reachable z \<Longrightarrow> reachable (clearRecords z)"

subsection \<open>Records and a signer for the examples\<close>

definition rr_in :: "string \<Rightarrow> nat \<Rightarrow> rdata \<Rightarrow> rr" where
  "rr_in owner t d = \<lparr>rname = owner, rtype = t, rclass = 1, rttl = 3600, rdata = d\<rparr>"

text \<open>
  A signer that names the signature after the first record of the set it signs.
\<close>

definition example_signer :: signer where
  "example_signer key priv rrset =
     (case rrset of
        [] \<Rightarrow> rr_in ''.'' types_RRSIG (SigData 0)
      | r # _ \<Rightarrow> rr_in (rname r) types_RRSIG (SigData (rtype r)))"

definition referral_records :: "rr list" where
  "referral_records =
     [rr_in ''.'' types_SOA (NSData ''a.root-servers.net.''),
      rr_in ''com.'' types_NS (NSData ''a.gtld-servers.net.''),
      rr_in ''a.gtld-servers.net.'' types_A (OtherData ''192.5.6.30'')]"

definition wildcard_records :: "rr list" where
  "wildcard_records = [rr_in ''*.example.'' types_A (OtherData ''1.2.3.4'')]"

definition noglue_records :: "rr list" where
  "noglue_records = [rr_in ''com.'' types_NS (NSData ''ns1.nic.example.'')]"

definition dangling_cname_records :: "rr list" where
  "dangling_cname_records =
     [rr_in ''example.'' types_SOA (NSData ''ns1.example.''),
      rr_in ''a.example.'' types_CNAME (TargetData ''nx.other.'')]"

text \<open>
  The root zone of the end-to-end scenarios: SOA and NS at the root, NS at \<open>com.\<close>
  with its glue, and the NSEC chain over the root and \<open>com.\<close>.
\<close>

definition root_zone_records :: "rr list" where
  "root_zone_records =
     [rr_in ''.'' types_SOA (NSData ''a.root-servers.net.''),
      rr_in ''.'' types_NS (NSData ''a.root-servers.net.''),
      rr_in ''com.'' types_NS (NSData ''a.gtld-servers.net.''),
      rr_in ''a.gtld-servers.net.'' types_A (OtherData ''192.5.6.30''),
      rr_in ''.'' types_NSEC (OtherData ''com.''),
      rr_in ''com.'' types_NSEC (OtherData ''.'')]"

subsection \<open>Invariants of the record index\<close>

text \<open>
  What the insertion path keeps true of a \<^verbatim>\<open>RecordMap\<close>: every list is non-empty and
  holds records of the type it is filed under (signatures under the type they cover),
  with owners in \<open>P\<close>; and of a zone: the exact-owner table files every record under
  its own owner, which is not a wildcard, the wildcard table holds wildcard owners only,
  and the origin is a lowercase FQDN whose label count is \<open>count\<close>.
\<close>

definition recmap_inv :: "(string \<Rightarrow> bool) \<Rightarrow> recordMap \<Rightarrow> bool" where
  "recmap_inv P m \<longleftrightarrow>
     (\<forall>t rs. rrs m t = Some rs \<longrightarrow> rs \<noteq> [] \<and> (\<forall>r\<in>set rs. rtype r = t \<and> P (rname r)))
     \<and> (\<forall>tc ss. sigs m tc = Some ss \<longrightarrow>
           ss \<noteq> [] \<and> (\<forall>r\<in>set ss. rtype r = types_RRSIG
                          \<and> data_typeCovered (rdata r) = tc \<and> P (rname r)))"

definition zone_inv :: "zone \<Rightarrow> bool" where
  "zone_inv z \<longleftrightarrow>
     (\<forall>n m. names z n = Some m \<longrightarrow> \<not> isWild n \<and> recmap_inv (\<lambda>x. x = n) m)
     \<and> recmap_inv isWild (wild z)
     \<and> isFQDN (origin z) \<and> count z = countLabels (origin z)
     \<and> toLowerCase (origin z) = origin z"

definition shadowed_records :: "rr list" where
  "shadowed_records =
     [rr_in ''a.example.'' types_A (OtherData ''1.2.3.4''),
      rr_in ''a.example.'' types_CNAME (TargetData ''b.example.'')]"

subsection \<open>The wildcard match rule, as stated\<close>

text \<open>
  The rule that \<^verbatim>\<open>filterMatches\<close> is compared with: the query name has at least as
  many labels as the wildcard owner, and the labels of the owner after its first one (the
  \<open>*\<close>) are the rightmost labels of the query name.
\<close>

definition wildcard_matches :: "string \<Rightarrow> string \<Rightarrow> bool" where
  "wildcard_matches owner q \<longleftrightarrow>
     length (splitName owner) \<le> length (splitName q)
     \<and> suffix (tl (splitName owner)) (splitName q)"

definition two_wildcard_records :: "rr list" where
  "two_wildcard_records =
     [rr_in ''*.example.'' types_A (OtherData ''1.2.3.4''),
      rr_in ''*.sub.example.'' types_A (OtherData ''5.6.7.8'')]"

subsection \<open>The NameList order and the stored RRsets\<close>

text \<open>
  A list of names is sorted when the canonical keys strictly increase; this is the
  invariant of the NSEC name list, kept as long as the list has fewer than \<open>2^31\<close>
  names (beyond that \<^verbatim>\<open>>>>\<close> wraps).
\<close>

definition name_sorted :: "string list \<Rightarrow> bool" where
  "name_sorted items = sorted_wrt (\<lambda>a b. canon_key a < canon_key b) items"

definition nsec_inv :: "zone \<Rightarrow> bool" where
  "nsec_inv z \<longleftrightarrow> (length (nsec z) < 2147483648 \<longrightarrow> name_sorted (nsec z))"

text \<open>
  The list under which the records of an owner and a type are filed: in the wildcard
  table for a wildcard owner, else in the \<^verbatim>\<open>RecordMap\<close> of the owner.
\<close>

definition stored :: "zone \<Rightarrow> string \<Rightarrow> nat \<Rightarrow> rr list" where
  "stored z owner t =
     (case (if isWild owner then Some (wild z) else names z owner) of
        None \<Rightarrow> []
      | Some m \<Rightarrow> (case rrs m t of None \<Rightarrow> [] | Some l \<Rightarrow> l))"

text \<open>
  The signatures filed for an owner and a covered type (\<^verbatim>\<open>sigs\<close> of the same
  \<^verbatim>\<open>RecordMap\<close>), and what \<^verbatim>\<open>RecordMap.push\<close> appends behind the records \<open>out\<close>
  it has pushed for a type: the signatures filed for the type or, when none is filed and
  the zone holds a key pair, one signature made over \<open>out\<close>.
\<close>

definition stored_sigs :: "zone \<Rightarrow> string \<Rightarrow> nat option \<Rightarrow> rr list" where
  "stored_sigs z owner tc =
     (case (if isWild owner then Some (wild z) else names z owner) of
        None \<Rightarrow> []
      | Some m \<Rightarrow> (case sigs m tc of None \<Rightarrow> [] | Some l \<Rightarrow> l))"

definition sig_tail :: "signer \<Rightarrow> zone \<Rightarrow> string \<Rightarrow> nat \<Rightarrow> rr list \<Rightarrow> rr list" where
  "sig_tail sg z owner t out =
     (if stored_sigs z owner (Some t) = [] then
        (case (zskkey z, zskpriv z) of
           (Some k, Some p) \<Rightarrow> [sg k p out]
         | _ \<Rightarrow> [])
      else stored_sigs z owner (Some t))"

definition twice_records :: "rr list" where
  "twice_records =
     [rr_in ''a.example.'' types_A (OtherData ''1.2.3.4''),
      rr_in ''a.example.'' types_A (OtherData ''1.2.3.4'')]"

text \<open>A signature over the A records of \<open>a.example.\<close> and a zone-signing key.\<close>

definition rrsig_a :: rr where
  "rrsig_a = rr_in ''a.example.'' types_RRSIG (SigData types_A)"

definition example_key :: rr where
  "example_key = rr_in ''example.'' 48 (OtherData ''zsk'')"

definition cname_loop_records :: "rr list" where
  "cname_loop_records = [rr_in ''a.example.'' types_CNAME (TargetData ''a.example.'')]"

text \<open>
  The apex of a zone: SOA and NSEC at the origin, for the origin \<open>example.\<close> and for
  the root, the latter with and without the NS record of the root and its glue.
\<close>

definition apex_records :: "rr list" where
  "apex_records =
     [rr_in ''example.'' types_SOA (NSData ''ns1.example.''),
      rr_in ''example.'' types_NSEC (OtherData ''a.example.'')]"

definition root_apex_records :: "rr list" where
  "root_apex_records =
     [rr_in ''.'' types_SOA (NSData ''a.root-servers.net.''),
      rr_in ''.'' types_NS (NSData ''a.root-servers.net.''),
      rr_in ''a.root-servers.net.'' types_A (OtherData ''198.41.0.4''),
      rr_in ''.'' types_NSEC (OtherData ''com.'')]"

definition root_soa_records :: "rr list" where
  "root_soa_records =
     [rr_in ''.'' types_SOA (NSData ''a.root-servers.net.''),
      rr_in ''a.root-servers.net.'' types_A (OtherData ''198.41.0.4''),
      rr_in ''.'' types_NSEC (OtherData ''com.'')]"

section \<open>Evaluation\<close>

lemmas types_defs =
  types_A_def types_NS_def types_CNAME_def types_SOA_def types_MX_def types_AAAA_def
  types_SRV_def types_DNAME_def types_DS_def types_RRSIG_def types_NSEC_def types_ANY_def
  codes_NOERROR_def codes_NXDOMAIN_def

lemmas util_defs =
  isFQDN_def toLowerCase_def lower_char_def countLabels_def split_def from_labels_def
  equal_names_def splitName_def isSubdomain_def suffix_to_prefix canon_key_def compare_def
  isWild_def is_u16_def js_index_def char_of_def bit_0 labels_match.simps

lemmas build_defs =
  load_def Zone_new_def setOrigin_def Zone_insert_def canonical_def RecordMap_insert_def
  RecordMap_new_def NameList_insert_def insertString_def insert_item_def search_def
  search_loop.simps rr_in_def Let_def

lemmas query_defs =
  resolve_def query_def find_def find_loop.simps find_step_def glue_def Zone_push_def
  Zone_get_def RecordMap_push_def emit_def convert_def proveNoData_def proveNameError_def
  NameList_lower_def findLower_def has_def

section \<open>The response assembler\<close>

text \<open>
  C7. \<^verbatim>\<open>resolve(name, type)\<close>, for a name that is an FQDN and a type of 16 bits:
  the query is made with the lowercased name and with NS in place of ANY; whatever tuple
  \<open>(an, ns, ar, aa, ok)\<close> the query returns, the message carries \<open>an\<close>, \<open>ns\<close>, \<open>ar\<close>
  and \<open>aa\<close> unchanged, its code is NXDOMAIN exactly when \<open>aa\<close> and \<open>ok\<close> are both
  false, and NOERROR otherwise.
\<close>

theorem resolve_copies_query:
  assumes "isFQDN name'" and "is_u16 t"
    and "query sg z (toLowerCase name') (if t = types_ANY then types_NS else t)
           = Some (Inr (an, ns, ar, aa', ok))"
  shows "\<exists>m. resolve sg z name' t = Some (Inr m)
           \<and> answer m = an \<and> authority m = ns \<and> additional m = ar \<and> aa m = aa'
           \<and> (code m = codes_NXDOMAIN \<longleftrightarrow> \<not> aa' \<and> \<not> ok)
           \<and> (code m = codes_NOERROR \<longleftrightarrow> \<not> (\<not> aa' \<and> \<not> ok))"
  using assms by (simp add: resolve_def Let_def codes_NOERROR_def codes_NXDOMAIN_def)

theorem resolve_copies_query_witness:
  "(case load ''.'' referral_records of
      Some (Inr z) \<Rightarrow>
        (\<exists>m. resolve example_signer z ''COM.'' types_ANY = Some (Inr m)
           \<and> answer m = []
           \<and> authority m = [rr_in ''com.'' types_NS (NSData ''a.gtld-servers.net.'')]
           \<and> additional m = [rr_in ''a.gtld-servers.net.'' types_A (OtherData ''192.5.6.30'')]
           \<and> aa m = False \<and> code m = codes_NOERROR)
    | _ \<Rightarrow> False)"
proof -
  have "\<exists>z. load ''.'' referral_records = Some (Inr z)
      \<and> query example_signer z (toLowerCase ''COM.'')
            (if types_ANY = types_ANY then types_NS else types_ANY)
          = Some (Inr ([], [rr_in ''com.'' types_NS (NSData ''a.gtld-servers.net.'')],
                [rr_in ''a.gtld-servers.net.'' types_A (OtherData ''192.5.6.30'')],
                False, True))"
    by (simp add: referral_records_def build_defs query_defs util_defs types_defs)
  then obtain z where L: "load ''.'' referral_records = Some (Inr z)"
    and Q: "query example_signer z (toLowerCase ''COM.'')
              (if types_ANY = types_ANY then types_NS else types_ANY)
            = Some (Inr ([], [rr_in ''com.'' types_NS (NSData ''a.gtld-servers.net.'')],
                [rr_in ''a.gtld-servers.net.'' types_A (OtherData ''192.5.6.30'')],
                False, True))"
    by blast
  have F: "isFQDN ''COM.''" by (simp add: isFQDN_def)
  have U: "is_u16 types_ANY" by (simp add: is_u16_def types_defs)
  from resolve_copies_query [OF F U Q] show ?thesis
    by (auto simp: L)
qed

section \<open>Reachable zones\<close>

lemma insert_all_reachable:
  "reachable z \<Longrightarrow> insert_all z rs = Some (Inr z') \<Longrightarrow> reachable z'"
proof (induction rs arbitrary: z)
  case Nil
  then show ?case by simp
next
  case (Cons r rs)
  from Cons.prems(2) obtain z1 where step: "Zone_insert z r = Some (Inr z1)"
    and rest: "insert_all z1 rs = Some (Inr z')"
    by (auto split: option.splits sum.splits)
  from Cons.prems(1) step have "reachable z1" by (rule reachable.ins)
  with rest show ?case by (rule Cons.IH [rotated])
qed

lemma load_reachable: "load orig rs = Some (Inr z) \<Longrightarrow> reachable z"
  unfolding load_def
  by (auto split: sum.splits intro: insert_all_reachable reachable.new)

section \<open>Lookup in the exact-owner table only\<close>

text \<open>
  C10. \<^verbatim>\<open>zone.has(name, type)\<close> looks at the exact-owner table only: for a name with
  no entry there it returns false for every type. A wildcard owner can match the same
  name, so that \<^verbatim>\<open>zone.get(name, type)\<close> is not empty: there is a reachable zone, a
  name and a type where \<open>has\<close> is false and \<open>get\<close> returns records.
\<close>

theorem has_ignores_wildcards:
  "(\<forall>z qname t. isFQDN qname \<and> is_u16 t \<and> names z qname = None
        \<longrightarrow> has z qname t = Inr False)
   \<and> (\<exists>z qname t rs. reachable z \<and> names z qname = None \<and> has z qname t = Inr False
        \<and> Zone_get sg z qname t = Inr rs \<and> rs \<noteq> [])"
proof (intro conjI allI impI)
  fix z :: zone and qname t
  assume "isFQDN qname \<and> is_u16 t \<and> names z qname = None"
  then show "has z qname t = Inr False" by (simp add: has_def)
next
  have "\<exists>z. load ''example.'' wildcard_records = Some (Inr z)
      \<and> names z ''foo.example.'' = None
      \<and> has z ''foo.example.'' types_A = Inr False
      \<and> Zone_get sg z ''foo.example.'' types_A
          = Inr [rr_in ''foo.example.'' types_A (OtherData ''1.2.3.4'')]"
    by (simp add: wildcard_records_def build_defs query_defs util_defs types_defs)
  then obtain z where "load ''example.'' wildcard_records = Some (Inr z)"
    and "names z ''foo.example.'' = None"
    and "has z ''foo.example.'' types_A = Inr False"
    and "Zone_get sg z ''foo.example.'' types_A
          = Inr [rr_in ''foo.example.'' types_A (OtherData ''1.2.3.4'')]"
    by blast
  then show "\<exists>z qname t rs. reachable z \<and> names z qname = None \<and> has z qname t = Inr False
        \<and> Zone_get sg z qname t = Inr rs \<and> rs \<noteq> []"
    using load_reachable by blast
qed

theorem has_ignores_wildcards_witness:
  "(case load ''example.'' wildcard_records of
      Some (Inr z) \<Rightarrow>
        names z ''foo.example.'' = None
        \<and> has z ''foo.example.'' types_A = Inr False
        \<and> Zone_get example_signer z ''foo.example.'' types_A
            = Inr [rr_in ''foo.example.'' types_A (OtherData ''1.2.3.4'')]
    | _ \<Rightarrow> False)"
proof -
  have "\<exists>z. load ''example.'' wildcard_records = Some (Inr z)
      \<and> names z ''foo.example.'' = None
      \<and> Zone_get example_signer z ''foo.example.'' types_A
          = Inr [rr_in ''foo.example.'' types_A (OtherData ''1.2.3.4'')]"
    by (simp add: wildcard_records_def build_defs query_defs util_defs types_defs)
  then obtain z where L: "load ''example.'' wildcard_records = Some (Inr z)"
    and N: "names z ''foo.example.'' = None"
    and G: "Zone_get example_signer z ''foo.example.'' types_A
          = Inr [rr_in ''foo.example.'' types_A (OtherData ''1.2.3.4'')]"
    by blast
  have F: "isFQDN ''foo.example.''" by (simp add: isFQDN_def)
  have U: "is_u16 types_A" by (simp add: is_u16_def types_defs)
  from has_ignores_wildcards [where sg = example_signer] F U N
  have "has z ''foo.example.'' types_A = Inr False" by blast
  with L N G show ?thesis by simp
qed

section \<open>Queries that raise\<close>

text \<open>
  C1. The claim is that \<^verbatim>\<open>Zone.query\<close> never raises, also when a nameserver named
  by an NS record has no address in the zone. Evaluated on the root zone that holds only
  \<open>com. NS ns1.nic.example.\<close>, the query \<open>(com., NS)\<close> raises: \<^verbatim>\<open>find\<close> calls
  \<^verbatim>\<open>glue\<close> with three arguments, no address is found, and \<^verbatim>\<open>glue\<close> hands the
  missing fourth argument to \<^verbatim>\<open>push\<close>, whose \<^verbatim>\<open>assert(Array.isArray(an))\<close>
  fails.
\<close>

theorem query_raises_without_glue:
  "(case load ''.'' noglue_records of
      Some (Inr z) \<Rightarrow>
        Zone_get example_signer z ''com.'' types_NS
          = Inr [rr_in ''com.'' types_NS (NSData ''ns1.nic.example.'')]
        \<and> glue example_signer z (Some ''ns1.nic.example.'') [] None None = Inl AssertionError
        \<and> query example_signer z ''com.'' types_NS = Some (Inl AssertionError)
    | _ \<Rightarrow> False)"
  by (simp add: noglue_records_def build_defs query_defs util_defs types_defs)

text \<open>
  C4. The claim is that \<^verbatim>\<open>glue\<close>, when it finds nothing, appends the SOA of the
  zone to the authority list. \<^verbatim>\<open>glue\<close> pushes the SOA records stored at the name it
  was asked to glue, not at the origin. Evaluated on the zone \<open>example.\<close> with its
  SOA and \<open>a.example. CNAME nx.other.\<close>: \<^verbatim>\<open>glue\<close> of \<open>nx.other.\<close> leaves both
  lists as they were, and \<^verbatim>\<open>resolve(a.example., A)\<close> answers the CNAME with an empty
  authority section.
\<close>

theorem glue_pushes_no_zone_soa:
  "(case load ''example.'' dangling_cname_records of
      Some (Inr z) \<Rightarrow>
        Zone_get example_signer z (origin z) types_SOA
          = Inr [rr_in ''example.'' types_SOA (NSData ''ns1.example.'')]
        \<and> glue example_signer z (Some ''nx.other.'')
             [rr_in ''a.example.'' types_CNAME (TargetData ''nx.other.'')]
             (Some types_A) (Some [])
           = Inr ([rr_in ''a.example.'' types_CNAME (TargetData ''nx.other.'')], Some [])
        \<and> resolve example_signer z ''a.example.'' types_A
           = Some (Inr \<lparr>code = codes_NOERROR, aa = True,
                answer = [rr_in ''a.example.'' types_CNAME (TargetData ''nx.other.'')],
                authority = [], additional = []\<rparr>)
    | _ \<Rightarrow> False)"
  by (simp add: dangling_cname_records_def build_defs query_defs util_defs types_defs)

text \<open>
  C3. The claim is that \<^verbatim>\<open>lower(name)\<close>, for a name that is not stored, returns the
  greatest stored name below it. For a name above every stored name \<^verbatim>\<open>search\<close>
  returns the length of the array, \<^verbatim>\<open>findLower\<close> reads \<^verbatim>\<open>items[i]\<close> there and
  hands \<^verbatim>\<open>undefined\<close> to \<^verbatim>\<open>util.compare\<close>. Evaluated on the list that holds
  \<open>a.\<close> alone, with the name \<open>b.\<close>.
\<close>

theorem lower_raises_above_last:
  "NameList_insert [] ''a.'' = Some (Inr ([''a.''], True))
   \<and> compare ''a.'' ''b.'' = - 1
   \<and> search [''a.''] ''b.'' compare True = Some (Inr 1)
   \<and> NameList_lower [''a.''] ''b.'' = Some (Inl AssertionError)"
  by (simp add: build_defs query_defs util_defs)

text \<open>
  C8. The claim is that the root zone answers a name under a TLD that does not exist with
  the SOA and two NSEC records. Evaluated on the root zone of the scenarios with the
  query \<open>(example.invalid., A)\<close>: there is no local answer and no NS at \<open>invalid.\<close>,
  the NSEC names are the root and \<open>com.\<close>, \<open>invalid.\<close> sorts after both, and
  \<^verbatim>\<open>proveNameError\<close> raises in \<^verbatim>\<open>findLower\<close>. For \<open>(example.aaa., A)\<close>, where
  \<open>aaa.\<close> sorts before \<open>com.\<close>, the proof is returned.
\<close>

theorem nxdomain_proof_raises_above_last:
  "(case load ''.'' root_zone_records of
      Some (Inr z) \<Rightarrow>
        nsec z = [''.'', ''com.'']
        \<and> find example_signer z ''example.invalid.'' types_A = Some (Inr ([], [], []))
        \<and> find example_signer z ''invalid.'' types_NS = Some (Inr ([], [], []))
        \<and> query example_signer z ''example.invalid.'' types_A = Some (Inl AssertionError)
        \<and> query example_signer z ''example.aaa.'' types_A
           = Some (Inr ([],
                [rr_in ''.'' types_SOA (NSData ''a.root-servers.net.''),
                 rr_in ''.'' types_NSEC (OtherData ''com.''),
                 rr_in ''.'' types_NSEC (OtherData ''com.'')],
                [], False, False))
    | _ \<Rightarrow> False)"
  by (simp add: root_zone_records_def build_defs query_defs util_defs types_defs)

section \<open>Invariants of reachable zones\<close>

lemma lower_char_idem: "lower_char (lower_char c) = lower_char c"
  by (auto simp: lower_char_def less_eq_char_def)

lemma toLowerCase_idem: "toLowerCase (toLowerCase s) = toLowerCase s"
  by (simp add: toLowerCase_def lower_char_idem)

lemma lower_char_dot: "lower_char c = CHR ''.'' \<longleftrightarrow> c = CHR ''.''"
proof
  assume a: "lower_char c = CHR ''.''"
  show "c = CHR ''.''"
  proof (cases "CHR ''A'' \<le> c \<and> c \<le> CHR ''Z''")
    case True
    then have "of_char (lower_char c) = (of_char c + 32 :: nat)"
      by (simp add: lower_char_def less_eq_char_def)
    with a True show ?thesis by (simp add: less_eq_char_def)
  next
    case False
    with a show ?thesis by (simp add: lower_char_def)
  qed
next
  assume "c = CHR ''.''"
  then show "lower_char c = CHR ''.''" by (simp add: lower_char_def)
qed

lemma isFQDN_toLowerCase: "isFQDN (toLowerCase s) = isFQDN s"
  by (cases s rule: rev_cases) (simp_all add: isFQDN_def toLowerCase_def lower_char_dot)

lemma recmap_inv_new: "recmap_inv P RecordMap_new"
  by (simp add: recmap_inv_def RecordMap_new_def)

lemma rrs_insert:
  "rrs (RecordMap_insert m r) t =
     (if t = rtype r then Some ((case rrs m t of None \<Rightarrow> [] | Some l \<Rightarrow> l) @ [r])
      else rrs m t)"
  by (simp add: RecordMap_insert_def Let_def)

lemma sigs_insert:
  "sigs (RecordMap_insert m r) tc =
     (if rtype r = types_RRSIG \<and> tc = data_typeCovered (rdata r)
      then Some ((case sigs m tc of None \<Rightarrow> [] | Some l \<Rightarrow> l) @ [r])
      else sigs m tc)"
  by (simp add: RecordMap_insert_def Let_def)

lemma recmap_inv_insert:
  assumes inv: "recmap_inv P m" and P: "P (rname r)"
  shows "recmap_inv P (RecordMap_insert m r)"
  unfolding recmap_inv_def
proof (rule conjI; intro allI impI)
  fix t rs
  assume a: "rrs (RecordMap_insert m r) t = Some rs"
  show "rs \<noteq> [] \<and> (\<forall>x\<in>set rs. rtype x = t \<and> P (rname x))"
  proof (cases "t = rtype r")
    case True
    with a have rs: "rs = (case rrs m t of None \<Rightarrow> [] | Some l \<Rightarrow> l) @ [r]"
      by (simp add: rrs_insert)
    show ?thesis
    proof (cases "rrs m t")
      case None
      with rs True P show ?thesis by simp
    next
      case (Some l)
      with inv have "\<forall>x\<in>set l. rtype x = t \<and> P (rname x)"
        by (simp add: recmap_inv_def)
      with rs Some True P show ?thesis by auto
    qed
  next
    case False
    with a have "rrs m t = Some rs" by (simp add: rrs_insert)
    with inv show ?thesis by (simp add: recmap_inv_def)
  qed
next
  fix tc ss
  assume a: "sigs (RecordMap_insert m r) tc = Some ss"
  show "ss \<noteq> [] \<and> (\<forall>x\<in>set ss. rtype x = types_RRSIG
          \<and> data_typeCovered (rdata x) = tc \<and> P (rname x))"
  proof (cases "rtype r = types_RRSIG \<and> tc = data_typeCovered (rdata r)")
    case True
    with a have ss: "ss = (case sigs m tc of None \<Rightarrow> [] | Some l \<Rightarrow> l) @ [r]"
      by (simp add: sigs_insert)
    show ?thesis
    proof (cases "sigs m tc")
      case None
      with ss True P show ?thesis by simp
    next
      case (Some l)
      with inv have "\<forall>x\<in>set l. rtype x = types_RRSIG
          \<and> data_typeCovered (rdata x) = tc \<and> P (rname x)"
        by (simp add: recmap_inv_def)
      with ss Some True P show ?thesis by auto
    qed
  next
    case False
    with a have "sigs m tc = Some ss" by (simp add: sigs_insert)
    with inv show ?thesis by (simp add: recmap_inv_def)
  qed
qed

lemma zone_inv_new: "Zone_new orig = Inr z \<Longrightarrow> zone_inv z"
  by (auto simp: Zone_new_def setOrigin_def Let_def zone_inv_def recmap_inv_new
      isFQDN_toLowerCase toLowerCase_idem split: if_splits)

lemma zone_inv_setOrigin: "zone_inv z \<Longrightarrow> setOrigin z orig = Inr z' \<Longrightarrow> zone_inv z'"
  by (auto simp: setOrigin_def Let_def zone_inv_def
      isFQDN_toLowerCase toLowerCase_idem split: if_splits)

lemma zone_inv_setZSK: "zone_inv z \<Longrightarrow> zone_inv (setZSK z priv key)"
  by (simp add: setZSK_def zone_inv_def)

lemma zone_inv_clearRecords: "zone_inv z \<Longrightarrow> zone_inv (clearRecords z)"
  by (simp add: clearRecords_def zone_inv_def recmap_inv_new)

lemma zone_inv_clear: "zone_inv z \<Longrightarrow> zone_inv (clear z)"
  by (simp add: clear_def clearRecords_def zone_inv_def recmap_inv_new isFQDN_def
      countLabels_def split_def toLowerCase_def lower_char_def)

lemma zone_inv_insert:
  assumes inv: "zone_inv z" and ins: "Zone_insert z r = Some (Inr z')"
  shows "zone_inv z'"
proof -
  define c where "c = canonical r"
  define z1 where "z1 =
    (if isWild (rname c) then z\<lparr>wild := RecordMap_insert (wild z) c\<rparr>
     else z\<lparr>names := (names z)(rname c \<mapsto>
            RecordMap_insert (case names z (rname c) of None \<Rightarrow> RecordMap_new | Some m \<Rightarrow> m) c)\<rparr>)"
  have z1: "zone_inv z1"
  proof (cases "isWild (rname c)")
    case True
    with inv show ?thesis
      by (simp add: z1_def zone_inv_def recmap_inv_insert)
  next
    case False
    have "recmap_inv (\<lambda>x. x = rname c)
        (RecordMap_insert (case names z (rname c) of None \<Rightarrow> RecordMap_new | Some m \<Rightarrow> m) c)"
      using inv by (intro recmap_inv_insert) (auto simp: zone_inv_def recmap_inv_new split: option.splits)
    with inv False show ?thesis
      by (simp add: z1_def zone_inv_def)
  qed
  from ins have "z' = z1 \<or> (\<exists>items. z' = z1\<lparr>nsec := items\<rparr>)"
    unfolding Zone_insert_def Let_def c_def [symmetric] z1_def [symmetric]
    by (auto split: if_splits option.splits sum.splits)
  with z1 show ?thesis by (auto simp: zone_inv_def)
qed

lemma reachable_inv: "reachable z \<Longrightarrow> zone_inv z"
  by (induction rule: reachable.induct)
    (auto intro: zone_inv_new zone_inv_insert zone_inv_setZSK zone_inv_setOrigin
      zone_inv_clear zone_inv_clearRecords)

lemma filterMatches_exact: "\<forall>r\<in>set rs. \<not> isWild (rname r) \<Longrightarrow> filterMatches q rs = rs"
  by (induction rs) simp_all

lemma convert_exact: "\<forall>r\<in>set rs. \<not> isWild (rname r) \<Longrightarrow> map (convert q) rs = rs"
  by (induction rs) (simp_all add: convert_def)

lemma emit_exact:
  assumes "\<forall>r\<in>set found. \<not> isWild (rname r)"
    and "\<And>ss. sigs m (Some t) = Some ss \<Longrightarrow> \<forall>r\<in>set ss. \<not> isWild (rname r)"
  shows "emit sg z m q t found an =
     an @ found @ (case sigs m (Some t) of
                     Some ss \<Rightarrow> ss
                   | None \<Rightarrow> (case (zskkey z, zskpriv z) of
                                (Some k, Some p) \<Rightarrow> [sg k p (an @ found)]
                              | _ \<Rightarrow> []))"
  using assms
  by (auto simp: emit_def Let_def filterMatches_exact convert_exact split: option.splits)

section \<open>CNAME exclusivity at retrieval\<close>

text \<open>
  C6. In a reachable zone whose exact-owner table holds a CNAME RRset \<open>cs\<close> at the name
  \<open>n\<close>, retrieval at \<open>(n, t)\<close> for a type \<open>t\<close> other than CNAME appends the CNAME
  records, all of them and unchanged, then the stored signatures that cover CNAME or,
  when none is stored and the zone has both parts of its key, one signature made on the
  fly, and nothing else: the output does not depend on any other RRset stored at \<open>n\<close>.
\<close>

theorem cname_exclusive:
  assumes "reachable z" and "names z n = Some m" and "rrs m types_CNAME = Some cs"
    and "t \<noteq> types_CNAME" and "is_u16 t" and "isFQDN n"
  shows "cs \<noteq> []
    \<and> (\<forall>r\<in>set cs. rtype r = types_CNAME \<and> rname r = n)
    \<and> (\<forall>ss. sigs m (Some types_CNAME) = Some ss \<longrightarrow>
          (\<forall>r\<in>set ss. rtype r = types_RRSIG
             \<and> data_typeCovered (rdata r) = Some types_CNAME \<and> rname r = n))
    \<and> Zone_push sg z n t (Some an) =
        Inr (an @ cs @
          (case sigs m (Some types_CNAME) of
             Some ss \<Rightarrow> ss
           | None \<Rightarrow> (case (zskkey z, zskpriv z) of
                        (Some k, Some p) \<Rightarrow> [sg k p (an @ cs)]
                      | _ \<Rightarrow> [])))"
proof -
  from assms(1) have "zone_inv z" by (rule reachable_inv)
  with assms(2) have nw: "\<not> isWild n" and m: "recmap_inv (\<lambda>x. x = n) m"
    by (auto simp: zone_inv_def)
  from m assms(3) have cs: "cs \<noteq> []" "\<forall>r\<in>set cs. rtype r = types_CNAME \<and> rname r = n"
    by (auto simp: recmap_inv_def)
  from m have sg: "\<forall>ss. sigs m (Some types_CNAME) = Some ss \<longrightarrow>
          (\<forall>r\<in>set ss. rtype r = types_RRSIG
             \<and> data_typeCovered (rdata r) = Some types_CNAME \<and> rname r = n)"
    by (auto simp: recmap_inv_def)
  from cs obtain c cs' where ccs: "cs = c # cs'" by (cases cs) auto
  have "emit sg z m n types_CNAME cs an =
     an @ cs @ (case sigs m (Some types_CNAME) of
                     Some ss \<Rightarrow> ss
                   | None \<Rightarrow> (case (zskkey z, zskpriv z) of
                                (Some k, Some p) \<Rightarrow> [sg k p (an @ cs)]
                              | _ \<Rightarrow> []))"
    using cs sg nw by (intro emit_exact) auto
  then have "Zone_push sg z n t (Some an) =
        Inr (an @ cs @
          (case sigs m (Some types_CNAME) of
             Some ss \<Rightarrow> ss
           | None \<Rightarrow> (case (zskkey z, zskpriv z) of
                        (Some k, Some p) \<Rightarrow> [sg k p (an @ cs)]
                      | _ \<Rightarrow> [])))"
    using assms(2-6) ccs by (simp add: Zone_push_def RecordMap_push_def)
  with cs sg show ?thesis by blast
qed

theorem cname_exclusive_witness:
  "(case load ''example.'' shadowed_records of
      Some (Inr z) \<Rightarrow>
        has z ''a.example.'' types_A = Inr True
        \<and> Zone_get example_signer z ''a.example.'' types_A
            = Inr [rr_in ''a.example.'' types_CNAME (TargetData ''b.example.'')]
    | _ \<Rightarrow> False)"
proof -
  have "\<exists>z m. load ''example.'' shadowed_records = Some (Inr z)
      \<and> names z ''a.example.'' = Some m
      \<and> rrs m types_CNAME = Some [rr_in ''a.example.'' types_CNAME (TargetData ''b.example.'')]
      \<and> sigs m (Some types_CNAME) = None \<and> zskkey z = None
      \<and> has z ''a.example.'' types_A = Inr True"
    by (simp add: shadowed_records_def build_defs query_defs util_defs types_defs)
  then obtain z m where L: "load ''example.'' shadowed_records = Some (Inr z)"
    and N: "names z ''a.example.'' = Some m"
    and C: "rrs m types_CNAME = Some [rr_in ''a.example.'' types_CNAME (TargetData ''b.example.'')]"
    and S: "sigs m (Some types_CNAME) = None" and K: "zskkey z = None"
    and H: "has z ''a.example.'' types_A = Inr True"
    by blast
  have R: "reachable z" using L by (rule load_reachable)
  have T: "types_A \<noteq> types_CNAME" by (simp add: types_defs)
  have U: "is_u16 types_A" by (simp add: is_u16_def types_defs)
  have F: "isFQDN ''a.example.''" by (simp add: isFQDN_def)
  from cname_exclusive [OF R N C T U F, of example_signer "[]"] S K H L
  show ?thesis by (simp add: Zone_get_def)
qed

section \<open>Authoritative no-data\<close>

lemma emit_appends: "\<exists>ext. emit sg z m q t found an = an @ ext"
  by (auto simp: emit_def Let_def split: option.splits)

lemma RecordMap_push_appends:
  assumes "isFQDN q" and "is_u16 t"
  shows "\<exists>ext. RecordMap_push sg z m q t (Some an) = Inr (an @ ext)"
proof -
  have e: "\<And>u found. \<exists>ext. Inr (emit sg z m q u found an) = (Inr (an @ ext) :: error + rr list)"
    using emit_appends by blast
  show ?thesis
    using assms e by (auto simp: RecordMap_push_def split: option.splits list.splits)
qed

lemma Zone_push_appends:
  assumes "isFQDN q" and "is_u16 t"
  shows "\<exists>ext. Zone_push sg z q t (Some an) = Inr (an @ ext)"
  using assms RecordMap_push_appends [OF assms]
  by (auto simp: Zone_push_def split: option.splits)

lemma emit_no_key:
  assumes "zskkey z = None \<or> zskpriv z = None"
  shows "emit sg z m q t found an = an @ emit sg z m q t found []"
  using assms by (auto simp: emit_def Let_def split: option.splits)

lemma RecordMap_push_no_key:
  assumes "zskkey z = None \<or> zskpriv z = None"
  shows "RecordMap_push sg z m q t (Some an) =
     (case RecordMap_push sg z m q t (Some []) of
        Inl e \<Rightarrow> Inl e
      | Inr ext \<Rightarrow> Inr (an @ ext))"
proof -
  have e: "\<And>u found. emit sg z m q u found an = an @ emit sg z m q u found []"
    using assms by (rule emit_no_key)
  show ?thesis
    unfolding RecordMap_push_def
    by (simp add: e split: option.splits list.splits)
qed

lemma Zone_push_no_key:
  assumes "zskkey z = None \<or> zskpriv z = None"
    and "Zone_push sg z q t (Some an) = Inr (an @ ext)"
  shows "Zone_get sg z q t = Inr ext"
proof -
  have "Zone_push sg z q t (Some an) =
     (case Zone_push sg z q t (Some []) of
        Inl e \<Rightarrow> Inl e
      | Inr ext \<Rightarrow> Inr (an @ ext))"
    unfolding Zone_push_def
    by (simp add: RecordMap_push_no_key [OF assms(1), of _ _ _ _ an] split: option.splits)
  with assms(2) show ?thesis
    by (simp add: Zone_get_def split: sum.splits)
qed

lemma split_hd: "split s \<noteq> [] \<Longrightarrow> split s ! 0 = 0"
  by (auto simp: split_def split: if_splits)

lemma from_labels_self:
  assumes "isFQDN s" and "s \<noteq> ''.''"
  shows "from_labels s (split s) (- int (countLabels s)) = s"
proof -
  from assms have "split s \<noteq> []" by (auto simp: split_def isFQDN_def)
  then show ?thesis by (simp add: from_labels_def countLabels_def split_hd)
qed

lemma from_labels_root: "from_labels ''.'' (split ''.'') (- int (countLabels ''.'')) = []"
  by (simp add: from_labels_def countLabels_def split_def)

lemma find_empty: "Zone_get sg z q t = Inr [] \<Longrightarrow> find sg z q t = Some (Inr ([], [], []))"
  by (simp add: find_def find_loop.simps)

text \<open>
  For an origin other than the root: a query at the origin for a type with no local
  answer there (\<^verbatim>\<open>get\<close> at the origin is empty, so \<^verbatim>\<open>find\<close> has nothing to
  chase) returns an empty answer, an empty additional section, \<open>aa\<close> true and \<open>ok\<close>
  false, and \<^verbatim>\<open>resolve\<close> gives the code NOERROR. The authority section is what
  \<^verbatim>\<open>get\<close> returns for the SOA at the origin followed by what \<^verbatim>\<open>proveNoData\<close>
  appends for the NSEC at the origin; with no key in the zone the latter is \<^verbatim>\<open>get\<close>
  of the NSEC at the origin.
\<close>

lemma nodata_at_nonroot_origin:
  assumes "reachable z" and "origin z \<noteq> ''.''" and "is_u16 t"
    and "Zone_get sg z (origin z) t = Inr []"
  shows "\<exists>soa nsec'.
      Zone_get sg z (origin z) types_SOA = Inr soa
    \<and> Zone_push sg z (origin z) types_NSEC (Some soa) = Inr (soa @ nsec')
    \<and> (zskkey z = None \<or> zskpriv z = None
         \<longrightarrow> Zone_get sg z (origin z) types_NSEC = Inr nsec')
    \<and> query sg z (origin z) t = Some (Inr ([], soa @ nsec', [], True, False))
    \<and> (t \<noteq> types_ANY \<longrightarrow>
         resolve sg z (origin z) t =
           Some (Inr \<lparr>code = codes_NOERROR, aa = True, answer = [],
                      authority = soa @ nsec', additional = []\<rparr>))"
proof -
  from assms(1) have inv: "zone_inv z" by (rule reachable_inv)
  then have fq: "isFQDN (origin z)" and cnt: "count z = countLabels (origin z)"
    and low: "toLowerCase (origin z) = origin z"
    by (auto simp: zone_inv_def)
  have u16: "is_u16 types_SOA" "is_u16 types_NSEC" by (simp_all add: is_u16_def types_defs)
  from Zone_push_appends [OF fq u16(1), of sg z "[]"]
  obtain soa where soa: "Zone_get sg z (origin z) types_SOA = Inr soa"
    by (auto simp: Zone_get_def)
  from Zone_push_appends [OF fq u16(2), of sg z soa]
  obtain nsec' where ns: "Zone_push sg z (origin z) types_NSEC (Some soa) = Inr (soa @ nsec')"
    by blast
  have auth: "equal_names (from_labels (origin z) (split (origin z)) (- int (count z))) (origin z)"
    by (simp add: cnt from_labels_self [OF fq assms(2)] equal_names_def)
  have q: "query sg z (origin z) t = Some (Inr ([], soa @ nsec', [], True, False))"
    using fq assms(3) auth find_empty [OF assms(4)] soa ns
    by (simp add: query_def Let_def proveNoData_def)
  have r: "t \<noteq> types_ANY \<longrightarrow>
         resolve sg z (origin z) t =
           Some (Inr \<lparr>code = codes_NOERROR, aa = True, answer = [],
                      authority = soa @ nsec', additional = []\<rparr>)"
    using fq assms(3) q by (simp add: resolve_def Let_def low)
  have k: "zskkey z = None \<or> zskpriv z = None
         \<longrightarrow> Zone_get sg z (origin z) types_NSEC = Inr nsec'"
    using ns Zone_push_no_key by blast
  show ?thesis
    by (rule exI [of _ soa], rule exI [of _ nsec']) (intro conjI soa ns k q r)
qed

lemma nodata_at_nonroot_origin_example:
  "(case load ''example.'' apex_records of
      Some (Inr z) \<Rightarrow>
        origin z = ''example.''
        \<and> query example_signer z ''example.'' types_A
           = Some (Inr ([],
                [rr_in ''example.'' types_SOA (NSData ''ns1.example.''),
                 rr_in ''example.'' types_NSEC (OtherData ''a.example.'')],
                [], True, False))
        \<and> resolve example_signer z ''example.'' types_A
           = Some (Inr \<lparr>code = codes_NOERROR, aa = True, answer = [],
                authority = [rr_in ''example.'' types_SOA (NSData ''ns1.example.''),
                             rr_in ''example.'' types_NSEC (OtherData ''a.example.'')],
                additional = []\<rparr>)
    | _ \<Rightarrow> False)"
proof -
  have "\<exists>z. load ''example.'' apex_records = Some (Inr z)
      \<and> origin z = ''example.''
      \<and> Zone_get example_signer z ''example.'' types_A = Inr []
      \<and> Zone_get example_signer z ''example.'' types_SOA
          = Inr [rr_in ''example.'' types_SOA (NSData ''ns1.example.'')]
      \<and> Zone_push example_signer z ''example.'' types_NSEC
            (Some [rr_in ''example.'' types_SOA (NSData ''ns1.example.'')])
          = Inr [rr_in ''example.'' types_SOA (NSData ''ns1.example.''),
                 rr_in ''example.'' types_NSEC (OtherData ''a.example.'')]"
    by (simp add: apex_records_def build_defs query_defs util_defs types_defs)
  then obtain z where L: "load ''example.'' apex_records = Some (Inr z)"
    and O: "origin z = ''example.''"
    and G: "Zone_get example_signer z ''example.'' types_A = Inr []"
    and S: "Zone_get example_signer z ''example.'' types_SOA
          = Inr [rr_in ''example.'' types_SOA (NSData ''ns1.example.'')]"
    and N: "Zone_push example_signer z ''example.'' types_NSEC
            (Some [rr_in ''example.'' types_SOA (NSData ''ns1.example.'')])
          = Inr [rr_in ''example.'' types_SOA (NSData ''ns1.example.''),
                 rr_in ''example.'' types_NSEC (OtherData ''a.example.'')]"
    by blast
  have R: "reachable z" using L by (rule load_reachable)
  have U: "is_u16 types_A" by (simp add: is_u16_def types_defs)
  have T: "types_A \<noteq> types_ANY" by (simp add: types_defs)
  from O have O': "origin z \<noteq> ''.''" by simp
  from G O have G': "Zone_get example_signer z (origin z) types_A = Inr []" by simp
  from nodata_at_nonroot_origin [OF R O' U G'] S N O T L show ?thesis
    by auto
qed

text \<open>
  For the root the comparison never succeeds: no query on a reachable zone whose origin
  is the root is answered with \<open>aa\<close> true.
\<close>

lemma toLowerCase_root: "toLowerCase q = ''.'' \<longleftrightarrow> q = ''.''"
  by (cases q; cases "tl q") (auto simp: toLowerCase_def lower_char_dot)

lemma root_not_authoritative:
  "\<not> equal_names (from_labels q (split q) (- int 0)) ''.''"
proof (cases "split q = []")
  case True
  then show ?thesis by (simp add: from_labels_def equal_names_def toLowerCase_def)
next
  case False
  then have "q \<noteq> ''.''" by (auto simp: split_def)
  have l: "toLowerCase ''.'' = ''.''" by (simp add: toLowerCase_def lower_char_def)
  have e: "equal_names q ''.'' = (q = ''.'')"
    by (simp only: equal_names_def l toLowerCase_root)
  from False have "from_labels q (split q) (- int 0) = q"
    by (simp add: from_labels_def split_hd)
  with e \<open>q \<noteq> ''.''\<close> show ?thesis by simp
qed

lemma root_query_never_aa:
  assumes r: "reachable z" and o: "origin z = ''.''"
    and q: "query sg z q t = Some (Inr (an, ns, ar, aa', ok))"
  shows "\<not> aa'"
proof -
  from r have "zone_inv z" by (rule reachable_inv)
  with o have c: "count z = 0" by (simp add: zone_inv_def countLabels_def split_def)
  have na: "equal_names (from_labels q (split q) (- int (count z))) (origin z) = False"
    using root_not_authoritative [of q] by (simp add: c o)
  from q show ?thesis
    unfolding query_def Let_def na
    by (auto split: if_splits option.splits sum.splits prod.splits)
qed

text \<open>
  C9. The claim is that a query at the origin for a type with no local answer there is
  answered with \<open>aa\<close> true, \<open>ok\<close> false and the SOA and NSEC of the origin as
  authority. \<^verbatim>\<open>query\<close> takes the suffix of \<^verbatim>\<open>this.count\<close> labels of the name and
  compares it with the origin; for the root the count is 0, the suffix is empty and
  never equal to the origin, so a query at the origin of a root zone is not taken as
  authoritative and falls through to the referral branch with the root itself as
  \<^verbatim>\<open>child\<close>. Evaluated on a root zone with SOA, NS with its glue and NSEC at the
  root and the query \<open>(., A)\<close>: the answer is a referral to the zone's own NS set with
  \<open>aa\<close> false and \<open>ok\<close> true. On the same zone without the NS record the query
  raises, because \<^verbatim>\<open>proveNameError\<close> asks the name list for the predecessor of the
  root, which is stored.
\<close>

theorem nodata_at_root_origin_not_authoritative:
  "(case load ''.'' root_apex_records of
      Some (Inr z) \<Rightarrow>
        origin z = ''.''
        \<and> Zone_get example_signer z ''.'' types_A = Inr []
        \<and> Zone_get example_signer z ''.'' types_SOA
            = Inr [rr_in ''.'' types_SOA (NSData ''a.root-servers.net.'')]
        \<and> Zone_get example_signer z ''.'' types_NSEC
            = Inr [rr_in ''.'' types_NSEC (OtherData ''com.'')]
        \<and> query example_signer z ''.'' types_A
            = Some (Inr ([],
                 [rr_in ''.'' types_NS (NSData ''a.root-servers.net.'')],
                 [rr_in ''a.root-servers.net.'' types_A (OtherData ''198.41.0.4'')],
                 False, True))
        \<and> resolve example_signer z ''.'' types_A
            = Some (Inr \<lparr>code = codes_NOERROR, aa = False, answer = [],
                 authority = [rr_in ''.'' types_NS (NSData ''a.root-servers.net.'')],
                 additional =
                   [rr_in ''a.root-servers.net.'' types_A (OtherData ''198.41.0.4'')]\<rparr>)
    | _ \<Rightarrow> False)
   \<and> (case load ''.'' root_soa_records of
         Some (Inr z) \<Rightarrow>
           origin z = ''.''
           \<and> Zone_get example_signer z ''.'' types_A = Inr []
           \<and> query example_signer z ''.'' types_A = Some (Inl NotAnNXDomain)
       | _ \<Rightarrow> False)"
  by (simp add: root_apex_records_def root_soa_records_def build_defs query_defs util_defs
      types_defs)

section \<open>Wildcard matching\<close>

lemma labels_match_iff:
  "labels_match y x i \<longleftrightarrow>
     (\<forall>j. i \<le> j \<and> j \<le> length y \<longrightarrow>
        js_index y (int (length y) - int j) = js_index x (int (length x) - int j))"
proof (induction y x i rule: labels_match.induct)
  case (1 y x i)
  show ?case
  proof (cases "i \<le> length y")
    case False
    then show ?thesis by (subst labels_match.simps) auto
  next
    case le: True
    show ?thesis
    proof (cases "js_index y (int (length y) - int i) = js_index x (int (length x) - int i)")
      case False
      with le show ?thesis by (subst labels_match.simps) auto
    next
      case True
      with le have "labels_match y x i = labels_match y x (i + 1)"
        by (subst labels_match.simps) simp
      also have "\<dots> \<longleftrightarrow> (\<forall>j. i + 1 \<le> j \<and> j \<le> length y \<longrightarrow>
        js_index y (int (length y) - int j) = js_index x (int (length x) - int j))"
        using "1.IH" le True by simp
      also have "\<dots> \<longleftrightarrow> (\<forall>j. i \<le> j \<and> j \<le> length y \<longrightarrow>
        js_index y (int (length y) - int j) = js_index x (int (length x) - int j))"
      proof (intro iffI allI impI)
        fix j
        assume a: "\<forall>j. i + 1 \<le> j \<and> j \<le> length y \<longrightarrow>
          js_index y (int (length y) - int j) = js_index x (int (length x) - int j)"
          and j: "i \<le> j \<and> j \<le> length y"
        show "js_index y (int (length y) - int j) = js_index x (int (length x) - int j)"
        proof (cases "j = i")
          case True
          with \<open>js_index y (int (length y) - int i) = js_index x (int (length x) - int i)\<close>
          show ?thesis by simp
        next
          case False
          with j have "i + 1 \<le> j \<and> j \<le> length y" by arith
          with a show ?thesis by blast
        qed
      next
        fix j
        assume a: "\<forall>j. i \<le> j \<and> j \<le> length y \<longrightarrow>
          js_index y (int (length y) - int j) = js_index x (int (length x) - int j)"
          and j: "i + 1 \<le> j \<and> j \<le> length y"
        from j have "i \<le> j \<and> j \<le> length y" by arith
        with a show "js_index y (int (length y) - int j) = js_index x (int (length x) - int j)"
          by blast
      qed
      finally show ?thesis .
    qed
  qed
qed

lemma suffix_nth:
  assumes "length y \<le> length x"
  shows "suffix y x \<longleftrightarrow> (\<forall>k < length y. y ! k = x ! (length x - length y + k))"
proof
  assume "suffix y x"
  then obtain zs where "x = zs @ y" by (auto simp: suffix_def)
  then show "\<forall>k < length y. y ! k = x ! (length x - length y + k)"
    by (simp add: nth_append)
next
  assume a: "\<forall>k < length y. y ! k = x ! (length x - length y + k)"
  have "drop (length x - length y) x = y"
    using assms a by (intro nth_equalityI) auto
  then show "suffix y x" using suffix_drop [of "length x - length y" x] by simp
qed

lemma labels_match_suffix: "labels_match y x 1 \<longleftrightarrow> suffix y x"
proof (cases "length y \<le> length x")
  case True
  have "labels_match y x 1 \<longleftrightarrow> (\<forall>j. 1 \<le> j \<and> j \<le> length y \<longrightarrow> y ! (length y - j) = x ! (length x - j))"
    unfolding labels_match_iff using True
    by (auto simp: js_index_def nat_diff_distrib' of_nat_diff)
  also have "\<dots> \<longleftrightarrow> (\<forall>k < length y. y ! k = x ! (length x - length y + k))"
  proof
    assume a: "\<forall>j. 1 \<le> j \<and> j \<le> length y \<longrightarrow> y ! (length y - j) = x ! (length x - j)"
    show "\<forall>k < length y. y ! k = x ! (length x - length y + k)"
    proof (intro allI impI)
      fix k assume k: "k < length y"
      then have "1 \<le> length y - k \<and> length y - k \<le> length y" by arith
      with a have "y ! (length y - (length y - k)) = x ! (length x - (length y - k))"
        by blast
      with k True show "y ! k = x ! (length x - length y + k)" by simp
    qed
  next
    assume a: "\<forall>k < length y. y ! k = x ! (length x - length y + k)"
    show "\<forall>j. 1 \<le> j \<and> j \<le> length y \<longrightarrow> y ! (length y - j) = x ! (length x - j)"
    proof (intro allI impI)
      fix j assume j: "1 \<le> j \<and> j \<le> length y"
      then have "length y - j < length y" by arith
      with a have "y ! (length y - j) = x ! (length x - length y + (length y - j))" by blast
      with j True show "y ! (length y - j) = x ! (length x - j)" by simp
    qed
  qed
  also have "\<dots> \<longleftrightarrow> suffix y x" using True by (simp add: suffix_nth)
  finally show ?thesis .
next
  case False
  then have "\<not> suffix y x" by (auto dest: suffix_length_le)
  moreover from False have "\<not> labels_match y x 1"
    unfolding labels_match_iff
    by (auto simp: js_index_def intro!: exI [of _ "length y"])
  ultimately show ?thesis by simp
qed

lemma filterMatches_filter:
  "filterMatches q rs =
     filter (\<lambda>r. \<not> isWild (rname r) \<or> wildcard_matches (rname r) q) rs"
proof (induction rs)
  case Nil
  show ?case by simp
next
  case (Cons r rs)
  show ?case
  proof (cases "isWild (rname r)")
    case False
    with Cons show ?thesis by simp
  next
    case True
    have "wildcard_matches (rname r) q \<longleftrightarrow>
        \<not> length (splitName q) < length (splitName (rname r))
        \<and> labels_match (tl (splitName (rname r))) (splitName q) 1"
      unfolding wildcard_matches_def labels_match_suffix by (simp add: not_less)
    with True Cons show ?thesis by (simp add: Let_def del: One_nat_def)
  qed
qed

lemma isWild_prefix: "isWild s \<longleftrightarrow> (\<exists>T. s = ''*.'' @ T)"
proof
  assume "isWild s"
  then obtain a b T where "s = a # b # T" "a = CHR ''*''" "b = CHR ''.''"
    by (cases s; cases "tl s") (auto simp: isWild_def split: if_splits)
  then show "\<exists>T. s = ''*.'' @ T" by simp
next
  assume "\<exists>T. s = ''*.'' @ T"
  then show "isWild s" by (auto simp: isWild_def)
qed

lemma splitName_wild:
  assumes "T \<noteq> ''.''"
  shows "splitName (''*.'' @ T) = ''*'' # splitName T"
  using assms by (simp add: splitName_def)

lemma filterMatches_wild:
  assumes "\<forall>r\<in>set rs. isWild (rname r)"
  shows "map (convert q) (filterMatches q rs) =
     map (\<lambda>r. r\<lparr>rname := q\<rparr>) (filter (\<lambda>r. wildcard_matches (rname r) q) rs)"
  using assms unfolding filterMatches_filter
  by (induction rs) (auto simp: convert_def)

lemma emit_wild:
  assumes "\<forall>r\<in>set found. isWild (rname r)"
    and "\<And>ss. sigs m (Some t) = Some ss \<Longrightarrow> \<forall>r\<in>set ss. isWild (rname r)"
  shows "emit sg z m q t found [] =
     (let out = map (\<lambda>r. r\<lparr>rname := q\<rparr>) (filter (\<lambda>r. wildcard_matches (rname r) q) found)
      in out @ (case sigs m (Some t) of
                  Some ss \<Rightarrow>
                    map (\<lambda>r. r\<lparr>rname := q\<rparr>) (filter (\<lambda>r. wildcard_matches (rname r) q) ss)
                | None \<Rightarrow> (case (zskkey z, zskpriv z) of
                             (Some k, Some p) \<Rightarrow> [sg k p out]
                           | _ \<Rightarrow> [])))"
  using assms
  by (auto simp: emit_def Let_def filterMatches_wild split: option.splits)

text \<open>
  C2, as amended. A wildcard owner \<open>*.T\<close> matches a query name \<open>q\<close> exactly when \<open>q\<close>
  has at least as many labels as \<open>*.T\<close> (one more than \<open>T\<close>, not one more than
  \<open>*.T\<close>) and the labels of \<open>T\<close> are the rightmost labels of \<open>q\<close>. In a reachable
  zone, for a name \<open>q\<close> with no entry in the exact-owner table and, when the type asked
  is not CNAME, no CNAME in the wildcard table, \<^verbatim>\<open>zone.get(q, t)\<close> returns the
  wildcard records of type \<open>t\<close> whose owner matches \<open>q\<close>, each with its owner
  rewritten to \<open>q\<close>, followed by the matching stored signatures or one signature made
  on the fly; the wildcards whose owner does not match contribute nothing.
\<close>

theorem wildcard_match_law:
  assumes "reachable z" and "names z q = None" and "isFQDN q" and "is_u16 t"
    and "t = types_CNAME \<or> rrs (wild z) types_CNAME = None"
  shows "(\<forall>T r. rname r = ''*.'' @ T \<and> T \<noteq> ''.'' \<longrightarrow>
            filterMatches q [r] =
              (if length (splitName (''*.'' @ T)) \<le> length (splitName q)
                  \<and> suffix (splitName T) (splitName q)
               then [r] else []))
    \<and> Zone_get sg z q t =
        Inr (case rrs (wild z) t of
               None \<Rightarrow> []
             | Some rs \<Rightarrow>
                 (let out = map (\<lambda>r. r\<lparr>rname := q\<rparr>)
                              (filter (\<lambda>r. wildcard_matches (rname r) q) rs)
                  in out @
                     (case sigs (wild z) (Some t) of
                        Some ss \<Rightarrow>
                          map (\<lambda>r. r\<lparr>rname := q\<rparr>)
                            (filter (\<lambda>r. wildcard_matches (rname r) q) ss)
                      | None \<Rightarrow> (case (zskkey z, zskpriv z) of
                                   (Some k, Some p) \<Rightarrow> [sg k p out]
                                 | _ \<Rightarrow> []))))"
proof (rule conjI)
  show "\<forall>T r. rname r = ''*.'' @ T \<and> T \<noteq> ''.'' \<longrightarrow>
            filterMatches q [r] =
              (if length (splitName (''*.'' @ T)) \<le> length (splitName q)
                  \<and> suffix (splitName T) (splitName q)
               then [r] else [])"
  proof (intro allI impI)
    fix T and r :: rr
    assume a: "rname r = ''*.'' @ T \<and> T \<noteq> ''.''"
    then have w: "isWild (rname r)" by (auto simp: isWild_prefix)
    from a have "wildcard_matches (rname r) q \<longleftrightarrow>
        length (splitName (''*.'' @ T)) \<le> length (splitName q)
        \<and> suffix (splitName T) (splitName q)"
      using splitName_wild [of T] by (simp add: wildcard_matches_def)
    with w show "filterMatches q [r] =
              (if length (splitName (''*.'' @ T)) \<le> length (splitName q)
                  \<and> suffix (splitName T) (splitName q)
               then [r] else [])"
      by (simp add: filterMatches_filter)
  qed
next
  from assms(1) have "zone_inv z" by (rule reachable_inv)
  then have w: "recmap_inv isWild (wild z)" by (simp add: zone_inv_def)
  have cn: "(if t \<noteq> types_CNAME then rrs (wild z) types_CNAME else None) = None"
    using assms(5) by auto
  show "Zone_get sg z q t =
        Inr (case rrs (wild z) t of
               None \<Rightarrow> []
             | Some rs \<Rightarrow>
                 (let out = map (\<lambda>r. r\<lparr>rname := q\<rparr>)
                              (filter (\<lambda>r. wildcard_matches (rname r) q) rs)
                  in out @
                     (case sigs (wild z) (Some t) of
                        Some ss \<Rightarrow>
                          map (\<lambda>r. r\<lparr>rname := q\<rparr>)
                            (filter (\<lambda>r. wildcard_matches (rname r) q) ss)
                      | None \<Rightarrow> (case (zskkey z, zskpriv z) of
                                   (Some k, Some p) \<Rightarrow> [sg k p out]
                                 | _ \<Rightarrow> []))))"
  proof (cases "rrs (wild z) t")
    case None
    with assms(2-4) cn show ?thesis
      by (simp add: Zone_get_def Zone_push_def RecordMap_push_def)
  next
    case (Some rs)
    with w have ne: "rs \<noteq> []" and rw: "\<forall>r\<in>set rs. isWild (rname r)"
      by (auto simp: recmap_inv_def)
    from w have sw: "\<And>ss. sigs (wild z) (Some t) = Some ss \<Longrightarrow> \<forall>r\<in>set ss. isWild (rname r)"
      by (auto simp: recmap_inv_def)
    from ne obtain r rs' where rs: "rs = r # rs'" by (cases rs) auto
    have "Zone_get sg z q t = Inr (emit sg z (wild z) q t rs [])"
      using assms(2-4) cn Some rs
      by (simp add: Zone_get_def Zone_push_def RecordMap_push_def)
    with Some show ?thesis
      by (simp only: emit_wild [OF rw sw] option.case)
  qed
qed

theorem wildcard_match_law_witness:
  "(case load ''example.'' two_wildcard_records of
      Some (Inr z) \<Rightarrow>
        filterMatches ''foo.example.'' [rr_in ''*.sub.example.'' types_A (OtherData ''5.6.7.8'')]
          = []
        \<and> Zone_get example_signer z ''foo.example.'' types_A
          = Inr [rr_in ''foo.example.'' types_A (OtherData ''1.2.3.4'')]
        \<and> Zone_get example_signer z ''foo.sub.example.'' types_A
          = Inr [rr_in ''foo.sub.example.'' types_A (OtherData ''1.2.3.4''),
                 rr_in ''foo.sub.example.'' types_A (OtherData ''5.6.7.8'')]
    | _ \<Rightarrow> False)"
proof -
  have "\<exists>z. load ''example.'' two_wildcard_records = Some (Inr z)
      \<and> names z ''foo.example.'' = None \<and> names z ''foo.sub.example.'' = None
      \<and> rrs (wild z) types_CNAME = None
      \<and> rrs (wild z) types_A = Some two_wildcard_records
      \<and> sigs (wild z) (Some types_A) = None \<and> zskkey z = None"
    by (simp add: two_wildcard_records_def build_defs util_defs types_defs)
  then obtain z where L: "load ''example.'' two_wildcard_records = Some (Inr z)"
    and N1: "names z ''foo.example.'' = None" and N2: "names z ''foo.sub.example.'' = None"
    and C: "rrs (wild z) types_CNAME = None"
    and W: "rrs (wild z) types_A = Some two_wildcard_records"
    and S: "sigs (wild z) (Some types_A) = None" and K: "zskkey z = None"
    by blast
  have R: "reachable z" using L by (rule load_reachable)
  have U: "is_u16 types_A" by (simp add: is_u16_def types_defs)
  have F1: "isFQDN ''foo.example.''" and F2: "isFQDN ''foo.sub.example.''"
    by (simp_all add: isFQDN_def)
  have C': "types_A = types_CNAME \<or> rrs (wild z) types_CNAME = None" using C by simp
  have m: "wildcard_matches ''*.example.'' ''foo.example.''"
    "\<not> wildcard_matches ''*.sub.example.'' ''foo.example.''"
    "wildcard_matches ''*.example.'' ''foo.sub.example.''"
    "wildcard_matches ''*.sub.example.'' ''foo.sub.example.''"
    by (simp_all add: wildcard_matches_def splitName_def suffix_to_prefix)
  have nm: "rname (rr_in ''*.sub.example.'' types_A (OtherData ''5.6.7.8''))
        = ''*.'' @ ''sub.example.'' \<and> ''sub.example.'' \<noteq> ''.''"
    by (simp add: rr_in_def)
  have sf: "\<not> suffix (splitName ''sub.example.'') (splitName ''foo.example.'')"
    by (simp add: splitName_def suffix_to_prefix)
  from wildcard_match_law [OF R N1 F1 U C', of example_signer, THEN conjunct1, rule_format,
      OF nm] sf
  have fm: "filterMatches ''foo.example.''
      [rr_in ''*.sub.example.'' types_A (OtherData ''5.6.7.8'')] = []"
    by simp
  from wildcard_match_law [OF R N1 F1 U C', of example_signer, THEN conjunct2]
    wildcard_match_law [OF R N2 F2 U C', of example_signer, THEN conjunct2]
    W S K L m fm
  show ?thesis
    by (simp add: two_wildcard_records_def rr_in_def)
qed

text \<open>
  C2, as claimed, asks for strictly more labels than \<open>*.T\<close>. The name
  \<open>foo.example.\<close> has as many labels as \<open>*.example.\<close>, and it is matched.
\<close>

theorem wildcard_label_count_counterexample:
  "length (splitName ''foo.example.'') = length (splitName ''*.example.'')
   \<and> filterMatches ''foo.example.'' [rr_in ''*.example.'' types_A (OtherData ''1.2.3.4'')]
       = [rr_in ''*.example.'' types_A (OtherData ''1.2.3.4'')]
   \<and> (case load ''example.'' wildcard_records of
         Some (Inr z) \<Rightarrow>
           Zone_get example_signer z ''foo.example.'' types_A
             = Inr [rr_in ''foo.example.'' types_A (OtherData ''1.2.3.4'')]
       | _ \<Rightarrow> False)"
  by (simp add: wildcard_records_def build_defs query_defs util_defs types_defs)

section \<open>Binary search and insertion in the NameList\<close>

lemma compare_neg: "compare a b < 0 \<longleftrightarrow> canon_key a < canon_key b"
  by (simp add: compare_def)

lemma compare_zero: "compare a b = 0 \<longleftrightarrow> canon_key a = canon_key b"
  by (simp add: compare_def)

lemma name_sorted_nth:
  "name_sorted items \<Longrightarrow> i < j \<Longrightarrow> j < length items
     \<Longrightarrow> canon_key (items ! i) < canon_key (items ! j)"
  by (simp add: name_sorted_def sorted_wrt_iff_nth_less)

lemma midpoint:
  fixes s e :: int
  assumes "0 \<le> s" and "s \<le> e" and "e < 2147483648"
  shows "((s + e) mod 4294967296) div 2 = (s + e) div 2"
    and "s \<le> (s + e) div 2" and "(s + e) div 2 \<le> e"
  using assms by auto

lemma search_loop_sorted:
  assumes srt: "name_sorted items" and len: "length items < 2147483648"
  shows "0 \<le> s \<Longrightarrow> e < int (length items) \<Longrightarrow> s \<le> e + 1 \<Longrightarrow>
     (\<forall>i. i < nat s \<longrightarrow> canon_key (items ! i) < canon_key k) \<Longrightarrow>
     (\<forall>i. nat (e + 1) \<le> i \<and> i < length items \<longrightarrow> canon_key k < canon_key (items ! i)) \<Longrightarrow>
     \<exists>r. search_loop items k compare True s e = Some (Inr (int r)) \<and> r \<le> length items \<and>
        ((r < length items \<and> canon_key (items ! r) = canon_key k) \<or>
         ((\<forall>i. i < r \<longrightarrow> canon_key (items ! i) < canon_key k) \<and>
          (\<forall>i. r \<le> i \<and> i < length items \<longrightarrow> canon_key k < canon_key (items ! i))))"
proof (induction "nat (e - s + 1)" arbitrary: s e rule: less_induct)
  case less
  show ?case
  proof (cases "s \<le> e")
    case False
    with less.prems have se: "s = e + 1" by simp
    have "search_loop items k compare True s e = Some (Inr (int (nat s)))"
      using False less.prems(1) by (subst search_loop.simps) simp
    moreover have "nat s \<le> length items" using se less.prems by simp
    ultimately show ?thesis using less.prems(4,5) se by blast
  next
    case True
    define pos where "pos = (s + e) div 2"
    have e31: "e < 2147483648" using less.prems(2) len by simp
    have mid: "((s + e) mod 4294967296) div 2 = pos" "s \<le> pos" "pos \<le> e"
      using midpoint [OF less.prems(1) True e31] by (simp_all add: pos_def)
    have pos0: "0 \<le> pos" using mid less.prems(1) by simp
    have posl: "nat pos < length items" using mid less.prems(2) pos0 by simp
    have idx: "js_index items pos = Some (items ! nat pos)"
      using pos0 posl by (simp add: js_index_def)
    consider (eq) "canon_key (items ! nat pos) = canon_key k"
      | (lt) "canon_key (items ! nat pos) < canon_key k"
      | (gt) "canon_key k < canon_key (items ! nat pos)"
      by (metis linorder_less_linear)
    then show ?thesis
    proof cases
      case eq
      have "search_loop items k compare True s e = Some (Inr (int (nat pos)))"
        using True mid idx eq pos0
        by (subst search_loop.simps) (simp add: Let_def compare_zero)
      with posl eq show ?thesis by (intro exI [of _ "nat pos"]) simp
    next
      case lt
      have step: "search_loop items k compare True s e
          = search_loop items k compare True (pos + 1) e"
        using True mid idx lt
        by (subst search_loop.simps) (auto simp: Let_def compare_zero compare_neg)
      have below: "\<forall>i. i < nat (pos + 1) \<longrightarrow> canon_key (items ! i) < canon_key k"
      proof (intro allI impI)
        fix i assume i: "i < nat (pos + 1)"
        show "canon_key (items ! i) < canon_key k"
        proof (cases "i = nat pos")
          case True
          with lt show ?thesis by simp
        next
          case False
          with i pos0 have "i < nat pos" by simp
          from name_sorted_nth [OF srt this posl] lt show ?thesis by simp
        qed
      qed
      have "nat (e - (pos + 1) + 1) < nat (e - s + 1)" using mid by simp
      from less.hyps [OF this _ less.prems(2) _ below less.prems(5)] pos0 mid
      show ?thesis by (simp add: step)
    next
      case gt
      have step: "search_loop items k compare True s e
          = search_loop items k compare True s (pos - 1)"
        using True mid idx gt
        by (subst search_loop.simps) (auto simp: Let_def compare_zero compare_neg)
      have above: "\<forall>i. nat (pos - 1 + 1) \<le> i \<and> i < length items
          \<longrightarrow> canon_key k < canon_key (items ! i)"
      proof (intro allI impI)
        fix i assume i: "nat (pos - 1 + 1) \<le> i \<and> i < length items"
        show "canon_key k < canon_key (items ! i)"
        proof (cases "i = nat pos")
          case True
          with gt show ?thesis by simp
        next
          case False
          with i have "nat pos < i" by simp
          from name_sorted_nth [OF srt this] i gt show ?thesis by simp
        qed
      qed
      have "nat (pos - 1 - s + 1) < nat (e - s + 1)" using mid by simp
      from less.hyps [OF this less.prems(1) _ _ less.prems(4) above] mid less.prems(2)
      show ?thesis by (simp add: step)
    qed
  qed
qed

lemma search_sorted:
  assumes "name_sorted items" and "length items < 2147483648"
  shows "\<exists>r. search items k compare True = Some (Inr (int r)) \<and> r \<le> length items \<and>
        ((r < length items \<and> canon_key (items ! r) = canon_key k) \<or>
         ((\<forall>i. i < r \<longrightarrow> canon_key (items ! i) < canon_key k) \<and>
          (\<forall>i. r \<le> i \<and> i < length items \<longrightarrow> canon_key k < canon_key (items ! i))))"
proof -
  have a: "\<forall>i. i < nat 0 \<longrightarrow> canon_key (items ! i) < canon_key k" by simp
  have b: "\<forall>i. nat (int (length items) - 1 + 1) \<le> i \<and> i < length items
      \<longrightarrow> canon_key k < canon_key (items ! i)" by auto
  from search_loop_sorted [OF assms _ _ _ a b] show ?thesis
    by (simp add: search_def)
qed

lemma insert_at_sorted:
  assumes srt: "name_sorted items" and r: "r \<le> length items"
    and lo: "\<forall>i. i < r \<longrightarrow> canon_key (items ! i) < canon_key k"
    and hi: "\<forall>i. r \<le> i \<and> i < length items \<longrightarrow> canon_key k < canon_key (items ! i)"
  shows "name_sorted (take r items @ [k] @ drop r items)"
proof -
  have t: "\<forall>x\<in>set (take r items). canon_key x < canon_key k"
  proof
    fix x assume "x \<in> set (take r items)"
    then obtain i where "i < length (take r items)" "x = take r items ! i"
      by (auto simp: in_set_conv_nth)
    with lo show "canon_key x < canon_key k" by simp
  qed
  have d: "\<forall>y\<in>set (drop r items). canon_key k < canon_key y"
  proof
    fix y assume "y \<in> set (drop r items)"
    then obtain j where j: "j < length (drop r items)" "y = drop r items ! j"
      by (auto simp: in_set_conv_nth)
    then have "y = items ! (r + j)" "r + j < length items" using r by simp_all
    with hi show "canon_key k < canon_key y" by simp
  qed
  have st: "sorted_wrt (\<lambda>a b. canon_key a < canon_key b) (take r items)"
    and sd: "sorted_wrt (\<lambda>a b. canon_key a < canon_key b) (drop r items)"
    using srt by (simp_all add: name_sorted_def sorted_wrt_take sorted_wrt_drop)
  from t d have "\<forall>x\<in>set (take r items). \<forall>y\<in>set (drop r items). canon_key x < canon_key y"
    by (meson order_less_trans)
  with t d st sd show ?thesis
    by (simp add: name_sorted_def sorted_wrt_append)
qed

lemma insert_item_sorted:
  assumes srt: "name_sorted items" and len: "length items < 2147483648"
  shows "\<exists>items' i. insert_item items k compare True = Some (Inr (items', i))
           \<and> name_sorted items'"
proof -
  from search_sorted [OF assms, of k] obtain r where
    s: "search items k compare True = Some (Inr (int r))" and r: "r \<le> length items"
    and d: "(r < length items \<and> canon_key (items ! r) = canon_key k) \<or>
         ((\<forall>i. i < r \<longrightarrow> canon_key (items ! i) < canon_key k) \<and>
          (\<forall>i. r \<le> i \<and> i < length items \<longrightarrow> canon_key k < canon_key (items ! i)))"
    by blast
  show ?thesis
  proof (cases "r < length items \<and> canon_key (items ! r) = canon_key k")
    case True
    then have "insert_item items k compare True = Some (Inr (items, - 1))"
      using s by (simp add: insert_item_def js_index_def compare_zero)
    with srt show ?thesis by blast
  next
    case False
    with d have lo: "\<forall>i. i < r \<longrightarrow> canon_key (items ! i) < canon_key k"
      and hi: "\<forall>i. r \<le> i \<and> i < length items \<longrightarrow> canon_key k < canon_key (items ! i)"
      by blast+
    from False have "insert_item items k compare True
        = Some (Inr (take r items @ [k] @ drop r items, int r))"
      using s by (auto simp: insert_item_def js_index_def compare_zero)
    with insert_at_sorted [OF srt r lo hi] show ?thesis by blast
  qed
qed

lemma insert_item_length:
  "insert_item items k c u = Some (Inr (items', i)) \<Longrightarrow> length items \<le> length items'"
  by (auto simp: insert_item_def split: option.splits sum.splits if_splits)

lemma NameList_insert_inv:
  assumes "NameList_insert items k = Some (Inr (items', b))"
    and "length items < 2147483648 \<longrightarrow> name_sorted items"
  shows "length items' < 2147483648 \<longrightarrow> name_sorted items'"
proof
  assume l: "length items' < 2147483648"
  from assms(1) obtain i where i: "insert_item items k compare True = Some (Inr (items', i))"
    by (auto simp: NameList_insert_def insertString_def split: option.splits sum.splits)
  from insert_item_length [OF i] l have len: "length items < 2147483648" by simp
  with assms(2) have "name_sorted items" by simp
  from insert_item_sorted [OF this len, of k] i show "name_sorted items'" by simp
qed

lemma Zone_insert_nsec:
  assumes ins: "Zone_insert z r = Some (Inr z')"
  shows "(rtype (canonical r) \<noteq> types_NSEC \<and> nsec z' = nsec z)
    \<or> (rtype (canonical r) = types_NSEC
        \<and> (\<exists>b. NameList_insert (nsec z) (rname (canonical r)) = Some (Inr (nsec z', b))))"
proof -
  define c where "c = canonical r"
  define z1 where "z1 =
    (if isWild (rname c) then z\<lparr>wild := RecordMap_insert (wild z) c\<rparr>
     else z\<lparr>names := (names z)(rname c \<mapsto>
            RecordMap_insert (case names z (rname c) of None \<Rightarrow> RecordMap_new | Some m \<Rightarrow> m) c)\<rparr>)"
  have n1: "nsec z1 = nsec z" by (simp add: z1_def)
  from ins have body: "(if rtype c = types_NSEC then
            (case NameList_insert (nsec z1) (rname c) of
               None \<Rightarrow> None
             | Some (Inl e) \<Rightarrow> Some (Inl e)
             | Some (Inr (items, _)) \<Rightarrow> Some (Inr (z1\<lparr>nsec := items\<rparr>)))
          else Some (Inr z1)) = Some (Inr z')"
    unfolding Zone_insert_def Let_def c_def [symmetric] z1_def [symmetric]
    by (simp split: if_splits)
  show ?thesis
  proof (cases "rtype c = types_NSEC")
    case False
    with body have "z' = z1" by simp
    with False n1 show ?thesis by (simp add: c_def)
  next
    case True
    with body obtain items b where
      "NameList_insert (nsec z1) (rname c) = Some (Inr (items, b))" "z' = z1\<lparr>nsec := items\<rparr>"
      by (auto split: option.splits sum.splits)
    with True n1 show ?thesis by (auto simp: c_def)
  qed
qed

lemma nsec_inv_insert:
  assumes "nsec_inv z" and "Zone_insert z r = Some (Inr z')"
  shows "nsec_inv z'"
  using Zone_insert_nsec [OF assms(2)] assms(1) NameList_insert_inv
  unfolding nsec_inv_def by metis

lemma reachable_nsec_inv: "reachable z \<Longrightarrow> nsec_inv z"
proof (induction rule: reachable.induct)
  case (new orig z)
  then show ?case
    by (auto simp: Zone_new_def setOrigin_def Let_def nsec_inv_def name_sorted_def
        split: if_splits)
next
  case (ins z r z')
  then show ?case by (auto intro: nsec_inv_insert)
next
  case (zsk z priv key)
  then show ?case by (simp add: nsec_inv_def setZSK_def)
next
  case (org z orig z')
  then show ?case by (auto simp: nsec_inv_def setOrigin_def Let_def split: if_splits)
next
  case (clr z)
  then show ?case by (simp add: nsec_inv_def clear_def clearRecords_def name_sorted_def)
next
  case (clrr z)
  then show ?case by (simp add: nsec_inv_def clearRecords_def name_sorted_def)
qed

lemma name_sorted_distinct: "name_sorted items \<Longrightarrow> distinct items"
  unfolding name_sorted_def by (induction items) auto

section \<open>Inserting a record twice\<close>

lemma Zone_insert_tables:
  assumes ins: "Zone_insert z r = Some (Inr z')"
  shows "((isWild (rname (canonical r))
           \<and> wild z' = RecordMap_insert (wild z) (canonical r) \<and> names z' = names z)
    \<or> (\<not> isWild (rname (canonical r)) \<and> wild z' = wild z
        \<and> names z' = (names z)(rname (canonical r) \<mapsto>
              RecordMap_insert
                (case names z (rname (canonical r)) of None \<Rightarrow> RecordMap_new | Some m \<Rightarrow> m)
                (canonical r))))
    \<and> origin z' = origin z \<and> count z' = count z
    \<and> zskkey z' = zskkey z \<and> zskpriv z' = zskpriv z"
proof -
  define c where "c = canonical r"
  define z1 where "z1 =
    (if isWild (rname c) then z\<lparr>wild := RecordMap_insert (wild z) c\<rparr>
     else z\<lparr>names := (names z)(rname c \<mapsto>
            RecordMap_insert (case names z (rname c) of None \<Rightarrow> RecordMap_new | Some m \<Rightarrow> m) c)\<rparr>)"
  from ins have body: "(if rtype c = types_NSEC then
            (case NameList_insert (nsec z1) (rname c) of
               None \<Rightarrow> None
             | Some (Inl e) \<Rightarrow> Some (Inl e)
             | Some (Inr (items, _)) \<Rightarrow> Some (Inr (z1\<lparr>nsec := items\<rparr>)))
          else Some (Inr z1)) = Some (Inr z')"
    unfolding Zone_insert_def Let_def c_def [symmetric] z1_def [symmetric]
    by (simp split: if_splits)
  then have "wild z' = wild z1 \<and> names z' = names z1 \<and> origin z' = origin z1
      \<and> count z' = count z1 \<and> zskkey z' = zskkey z1 \<and> zskpriv z' = zskpriv z1"
    by (auto split: if_splits option.splits sum.splits)
  then show ?thesis
    unfolding c_def [symmetric] by (simp add: z1_def)
qed

lemma table_insert:
  assumes ins: "Zone_insert z r = Some (Inr z')"
  shows "(if isWild n then Some (wild z') else names z' n) =
     (if isWild n \<and> isWild (rname (canonical r)) \<or> n = rname (canonical r)
      then Some (RecordMap_insert
             (case (if isWild n then Some (wild z) else names z n) of
                None \<Rightarrow> RecordMap_new | Some m \<Rightarrow> m)
             (canonical r))
      else (if isWild n then Some (wild z) else names z n))"
proof -
  define c where "c = canonical r"
  note tab = Zone_insert_tables [OF ins, folded c_def, THEN conjunct1]
  show ?thesis
    unfolding c_def [symmetric]
  proof (cases "isWild (rname c)")
    case True
    with tab have w: "wild z' = RecordMap_insert (wild z) c" and n: "names z' = names z"
      by simp_all
    from True w n show "(if isWild n then Some (wild z') else names z' n) =
     (if isWild n \<and> isWild (rname c) \<or> n = rname c
      then Some (RecordMap_insert
             (case (if isWild n then Some (wild z) else names z n) of
                None \<Rightarrow> RecordMap_new | Some m \<Rightarrow> m) c)
      else (if isWild n then Some (wild z) else names z n))"
      by (cases "isWild n") auto
  next
    case False
    with tab have w: "wild z' = wild z"
      and n: "names z' = (names z)(rname c \<mapsto>
              RecordMap_insert (case names z (rname c) of None \<Rightarrow> RecordMap_new | Some m \<Rightarrow> m) c)"
      by simp_all
    from False w n show "(if isWild n then Some (wild z') else names z' n) =
     (if isWild n \<and> isWild (rname c) \<or> n = rname c
      then Some (RecordMap_insert
             (case (if isWild n then Some (wild z) else names z n) of
                None \<Rightarrow> RecordMap_new | Some m \<Rightarrow> m) c)
      else (if isWild n then Some (wild z) else names z n))"
      by (cases "isWild n") auto
  qed
qed

lemma stored_insert:
  assumes ins: "Zone_insert z r = Some (Inr z')"
  shows "stored z' n t =
     (if t = rtype (canonical r)
         \<and> (isWild n \<and> isWild (rname (canonical r)) \<or> n = rname (canonical r))
      then stored z n t @ [canonical r] else stored z n t)"
  unfolding stored_def table_insert [OF ins]
  by (simp add: rrs_insert RecordMap_new_def split: option.splits)

lemma stored_sigs_insert:
  assumes ins: "Zone_insert z r = Some (Inr z')"
  shows "stored_sigs z' n tc =
     (if rtype (canonical r) = types_RRSIG \<and> tc = data_typeCovered (rdata (canonical r))
         \<and> (isWild n \<and> isWild (rname (canonical r)) \<or> n = rname (canonical r))
      then stored_sigs z n tc @ [canonical r] else stored_sigs z n tc)"
  unfolding stored_sigs_def table_insert [OF ins]
  by (simp add: sigs_insert RecordMap_new_def split: option.splits)


lemma insert_item_present:
  assumes "insert_item items k compare True = Some (Inr (items', i))"
  shows "\<exists>x\<in>set items'. canon_key x = canon_key k"
proof -
  from assms obtain j where j: "search items k compare True = Some (Inr j)"
    by (auto simp: insert_item_def split: option.splits sum.splits)
  show ?thesis
  proof (cases "j < int (length items) \<and> (\<exists>it. js_index items j = Some it \<and> compare it k = 0)")
    case True
    then obtain it where it: "js_index items j = Some it" "compare it k = 0" by blast
    with True assms j have "items' = items" by (simp add: insert_item_def)
    moreover from it have "it \<in> set items" "canon_key it = canon_key k"
      by (auto simp: js_index_def compare_zero split: if_splits)
    ultimately show ?thesis by blast
  next
    case False
    with assms j have "items' = take (nat j) items @ [k] @ drop (nat j) items"
      by (auto simp: insert_item_def split: if_splits option.splits)
    then show ?thesis by auto
  qed
qed

lemma insert_item_again:
  assumes srt: "name_sorted items" and len: "length items < 2147483648"
    and pres: "\<exists>x\<in>set items. canon_key x = canon_key k"
  shows "insert_item items k compare True = Some (Inr (items, - 1))"
proof -
  from search_sorted [OF srt len, of k] obtain r where
    s: "search items k compare True = Some (Inr (int r))" and r: "r \<le> length items"
    and d: "(r < length items \<and> canon_key (items ! r) = canon_key k) \<or>
         ((\<forall>i. i < r \<longrightarrow> canon_key (items ! i) < canon_key k) \<and>
          (\<forall>i. r \<le> i \<and> i < length items \<longrightarrow> canon_key k < canon_key (items ! i)))"
    by blast
  have "r < length items \<and> canon_key (items ! r) = canon_key k"
  proof (rule ccontr)
    assume n: "\<not> (r < length items \<and> canon_key (items ! r) = canon_key k)"
    with d have lo: "\<forall>i. i < r \<longrightarrow> canon_key (items ! i) < canon_key k"
      and hi: "\<forall>i. r \<le> i \<and> i < length items \<longrightarrow> canon_key k < canon_key (items ! i)"
      by blast+
    from pres obtain j where j: "j < length items" "canon_key (items ! j) = canon_key k"
      by (auto simp: in_set_conv_nth)
    with lo hi show False by (cases "j < r") (auto simp: not_less)
  qed
  then show ?thesis
    using s by (simp add: insert_item_def js_index_def compare_zero)
qed

lemma second_insert_keeps_nsec:
  assumes rz: "reachable z" and i1: "Zone_insert z r = Some (Inr z1)"
    and i2: "Zone_insert z1 r = Some (Inr z2)" and len: "length (nsec z1) < 2147483648"
  shows "nsec z2 = nsec z1"
proof (cases "rtype (canonical r) = types_NSEC")
  case False
  with Zone_insert_nsec [OF i2] show ?thesis by simp
next
  case True
  with Zone_insert_nsec [OF i1] obtain b where
    n1: "NameList_insert (nsec z) (rname (canonical r)) = Some (Inr (nsec z1, b))" by auto
  from True Zone_insert_nsec [OF i2] obtain b' where
    n2: "NameList_insert (nsec z1) (rname (canonical r)) = Some (Inr (nsec z2, b'))" by auto
  from n1 obtain i where
    "insert_item (nsec z) (rname (canonical r)) compare True = Some (Inr (nsec z1, i))"
    by (auto simp: NameList_insert_def insertString_def split: option.splits sum.splits)
  then have pres: "\<exists>x\<in>set (nsec z1). canon_key x = canon_key (rname (canonical r))"
    by (rule insert_item_present)
  from rz i1 have "reachable z1" by (rule reachable.ins)
  then have "nsec_inv z1" by (rule reachable_nsec_inv)
  with len have "name_sorted (nsec z1)" by (simp add: nsec_inv_def)
  from insert_item_again [OF this len pres] n2 show ?thesis
    by (simp add: NameList_insert_def insertString_def)
qed

lemma get_stored:
  assumes r: "reachable z" and nw: "\<not> isWild n" and fq: "isFQDN n" and u: "is_u16 t"
    and cn: "t = types_CNAME \<or> stored z n types_CNAME = []"
    and ne: "stored z n t \<noteq> []"
  shows "Zone_get sg z n t = Inr (stored z n t @ sig_tail sg z n t (stored z n t))"
proof -
  from ne nw obtain m l where m: "names z n = Some m" and l: "rrs m t = Some l"
    and st: "stored z n t = l"
    by (auto simp: stored_def split: option.splits)
  from r have "zone_inv z" by (rule reachable_inv)
  with m have inv: "recmap_inv (\<lambda>x. x = n) m" by (simp add: zone_inv_def)
  from inv l have lw: "\<forall>x\<in>set l. \<not> isWild (rname x)" using nw by (auto simp: recmap_inv_def)
  from inv have sw: "\<And>ss. sigs m (Some t) = Some ss \<Longrightarrow> \<forall>x\<in>set ss. \<not> isWild (rname x)"
    using nw by (auto simp: recmap_inv_def)
  from inv have sne: "\<And>ss. sigs m (Some t) = Some ss \<Longrightarrow> ss \<noteq> []"
    by (auto simp: recmap_inv_def)
  have c0: "(if t \<noteq> types_CNAME then rrs m types_CNAME else None) = None"
  proof (cases "t = types_CNAME")
    case True
    then show ?thesis by simp
  next
    case False
    with cn have "stored z n types_CNAME = []" by simp
    with m nw inv have "rrs m types_CNAME = None"
      by (cases "rrs m types_CNAME") (auto simp: stored_def recmap_inv_def)
    then show ?thesis by simp
  qed
  from ne st obtain x xs where lx: "l = x # xs" by (cases l) auto
  have tail: "sig_tail sg z n t l =
      (case sigs m (Some t) of
         Some ss \<Rightarrow> ss
       | None \<Rightarrow> (case (zskkey z, zskpriv z) of
                    (Some k, Some p) \<Rightarrow> [sg k p ([] @ l)]
                  | _ \<Rightarrow> []))"
    using m nw sne by (auto simp: sig_tail_def stored_sigs_def split: option.splits)
  have "Zone_get sg z n t = Inr (emit sg z m n t l [])"
    using fq u m l c0 lx by (simp add: Zone_get_def Zone_push_def RecordMap_push_def)
  also have "emit sg z m n t l [] = [] @ l @
      (case sigs m (Some t) of
         Some ss \<Rightarrow> ss
       | None \<Rightarrow> (case (zskkey z, zskpriv z) of
                    (Some k, Some p) \<Rightarrow> [sg k p ([] @ l)]
                  | _ \<Rightarrow> []))"
    using lw sw by (rule emit_exact)
  finally show ?thesis using st tail by simp
qed

text \<open>
  C5, as amended. \<^verbatim>\<open>RecordMap.insert\<close> appends without looking for the record. Of
  two successive insertions of a record, each appends one copy of its canonical form to
  the record list of its type at its owner (of the wildcard table for a wildcard owner)
  and, when the record is an RRSIG, one copy to the signature list of the covered type
  there; no other record list and no other signature list changes, nor do the origin, its
  label count and the key pair, nor, for a record that is not an NSEC, the NSEC name list.
  In a reachable zone whose name list has fewer than \<open>2^31\<close> names the second
  insertion leaves the name list as the first left it. For an exact owner (with the type
  CNAME, or no CNAME at the owner) \<^verbatim>\<open>get\<close> of the record's owner and type returns
  the records stored before, followed by one copy after the first insertion and by two
  after the second, followed by the signatures stored for the type or, when none is stored
  and the zone holds a key pair, by one signature made over the records returned; and
  \<^verbatim>\<open>get\<close> of any exact owner and type with a record stored returns the stored
  records followed by signatures in the same way, so that the two copies of an RRSIG come
  back with the type they cover. The NSEC name list of a reachable zone, of fewer than
  \<open>2^31\<close> names, holds every name at most once.
\<close>

theorem insert_twice_appends:
  "(\<forall>z r z1 z2 n t tc.
      Zone_insert z r = Some (Inr z1) \<and> Zone_insert z1 r = Some (Inr z2) \<longrightarrow>
        stored z1 n t =
          (if t = rtype (canonical r)
              \<and> (isWild n \<and> isWild (rname (canonical r)) \<or> n = rname (canonical r))
           then stored z n t @ [canonical r] else stored z n t)
        \<and> stored z2 n t =
          (if t = rtype (canonical r)
              \<and> (isWild n \<and> isWild (rname (canonical r)) \<or> n = rname (canonical r))
           then stored z n t @ [canonical r, canonical r] else stored z n t)
        \<and> stored_sigs z1 n tc =
          (if rtype (canonical r) = types_RRSIG \<and> tc = data_typeCovered (rdata (canonical r))
              \<and> (isWild n \<and> isWild (rname (canonical r)) \<or> n = rname (canonical r))
           then stored_sigs z n tc @ [canonical r] else stored_sigs z n tc)
        \<and> stored_sigs z2 n tc =
          (if rtype (canonical r) = types_RRSIG \<and> tc = data_typeCovered (rdata (canonical r))
              \<and> (isWild n \<and> isWild (rname (canonical r)) \<or> n = rname (canonical r))
           then stored_sigs z n tc @ [canonical r, canonical r] else stored_sigs z n tc)
        \<and> origin z1 = origin z \<and> count z1 = count z
        \<and> zskkey z1 = zskkey z \<and> zskpriv z1 = zskpriv z
        \<and> origin z2 = origin z \<and> count z2 = count z
        \<and> zskkey z2 = zskkey z \<and> zskpriv z2 = zskpriv z
        \<and> (rtype (canonical r) \<noteq> types_NSEC \<longrightarrow> nsec z1 = nsec z \<and> nsec z2 = nsec z))
   \<and> (\<forall>z r z1 z2.
        reachable z \<and> Zone_insert z r = Some (Inr z1) \<and> Zone_insert z1 r = Some (Inr z2)
        \<and> length (nsec z1) < 2147483648 \<longrightarrow> nsec z2 = nsec z1)
   \<and> (\<forall>z r z1 z2.
        reachable z \<and> Zone_insert z r = Some (Inr z1) \<and> Zone_insert z1 r = Some (Inr z2)
        \<and> \<not> isWild (rname (canonical r)) \<and> isFQDN (rname (canonical r))
        \<and> is_u16 (rtype (canonical r))
        \<and> (rtype (canonical r) = types_CNAME
             \<or> stored z (rname (canonical r)) types_CNAME = []) \<longrightarrow>
        Zone_get sg z1 (rname (canonical r)) (rtype (canonical r))
          = Inr (stored z (rname (canonical r)) (rtype (canonical r)) @ [canonical r]
                 @ sig_tail sg z1 (rname (canonical r)) (rtype (canonical r))
                     (stored z (rname (canonical r)) (rtype (canonical r)) @ [canonical r]))
        \<and> Zone_get sg z2 (rname (canonical r)) (rtype (canonical r))
          = Inr (stored z (rname (canonical r)) (rtype (canonical r))
                 @ [canonical r, canonical r]
                 @ sig_tail sg z2 (rname (canonical r)) (rtype (canonical r))
                     (stored z (rname (canonical r)) (rtype (canonical r))
                      @ [canonical r, canonical r])))
   \<and> (\<forall>z n t.
        reachable z \<and> \<not> isWild n \<and> isFQDN n \<and> is_u16 t
        \<and> (t = types_CNAME \<or> stored z n types_CNAME = []) \<and> stored z n t \<noteq> [] \<longrightarrow>
        Zone_get sg z n t = Inr (stored z n t @ sig_tail sg z n t (stored z n t)))
   \<and> (\<forall>z. reachable z \<and> length (nsec z) < 2147483648 \<longrightarrow> distinct (nsec z))"
proof (intro conjI allI impI)
  fix z z1 z2 :: zone and r n t tc
  assume a: "Zone_insert z r = Some (Inr z1) \<and> Zone_insert z1 r = Some (Inr z2)"
  then have i1: "Zone_insert z r = Some (Inr z1)" and i2: "Zone_insert z1 r = Some (Inr z2)"
    by simp_all
  note s1 = stored_insert [OF i1, of n t]
  note s2 = stored_insert [OF i2, of n t]
  note g1 = stored_sigs_insert [OF i1, of n tc]
  note g2 = stored_sigs_insert [OF i2, of n tc]
  from s1 show "stored z1 n t =
          (if t = rtype (canonical r)
              \<and> (isWild n \<and> isWild (rname (canonical r)) \<or> n = rname (canonical r))
           then stored z n t @ [canonical r] else stored z n t)" .
  show "stored z2 n t =
          (if t = rtype (canonical r)
              \<and> (isWild n \<and> isWild (rname (canonical r)) \<or> n = rname (canonical r))
           then stored z n t @ [canonical r, canonical r] else stored z n t)"
  proof (cases "t = rtype (canonical r)
              \<and> (isWild n \<and> isWild (rname (canonical r)) \<or> n = rname (canonical r))")
    case True
    from True s1 have a1: "stored z1 n t = stored z n t @ [canonical r]" by simp
    from True s2 have a2: "stored z2 n t = stored z1 n t @ [canonical r]" by simp
    from True a1 a2 show ?thesis by simp
  next
    case False
    from False s1 have a1: "stored z1 n t = stored z n t" by auto
    from False s2 have a2: "stored z2 n t = stored z1 n t" by auto
    from False a1 a2 show ?thesis by auto
  qed
  from g1 show "stored_sigs z1 n tc =
          (if rtype (canonical r) = types_RRSIG \<and> tc = data_typeCovered (rdata (canonical r))
              \<and> (isWild n \<and> isWild (rname (canonical r)) \<or> n = rname (canonical r))
           then stored_sigs z n tc @ [canonical r] else stored_sigs z n tc)" .
  show "stored_sigs z2 n tc =
          (if rtype (canonical r) = types_RRSIG \<and> tc = data_typeCovered (rdata (canonical r))
              \<and> (isWild n \<and> isWild (rname (canonical r)) \<or> n = rname (canonical r))
           then stored_sigs z n tc @ [canonical r, canonical r] else stored_sigs z n tc)"
  proof (cases "rtype (canonical r) = types_RRSIG \<and> tc = data_typeCovered (rdata (canonical r))
              \<and> (isWild n \<and> isWild (rname (canonical r)) \<or> n = rname (canonical r))")
    case True
    from True g1 have a1: "stored_sigs z1 n tc = stored_sigs z n tc @ [canonical r]" by simp
    from True g2 have a2: "stored_sigs z2 n tc = stored_sigs z1 n tc @ [canonical r]" by simp
    from True a1 a2 show ?thesis by simp
  next
    case False
    from False g1 have a1: "stored_sigs z1 n tc = stored_sigs z n tc" by auto
    from False g2 have a2: "stored_sigs z2 n tc = stored_sigs z1 n tc" by auto
    from False a1 a2 show ?thesis by auto
  qed
  from Zone_insert_tables [OF i1]
  show "origin z1 = origin z" "count z1 = count z" "zskkey z1 = zskkey z"
    "zskpriv z1 = zskpriv z"
    by simp_all
  from Zone_insert_tables [OF i1] Zone_insert_tables [OF i2]
  show "origin z2 = origin z" "count z2 = count z" "zskkey z2 = zskkey z"
    "zskpriv z2 = zskpriv z"
    by simp_all
  assume ns: "rtype (canonical r) \<noteq> types_NSEC"
  from Zone_insert_nsec [OF i1] ns have n1: "nsec z1 = nsec z" by simp
  from Zone_insert_nsec [OF i2] ns have n2: "nsec z2 = nsec z1" by simp
  from n1 show "nsec z1 = nsec z" .
  from n1 n2 show "nsec z2 = nsec z" by simp
next
  fix z z1 z2 :: zone and r
  assume "reachable z \<and> Zone_insert z r = Some (Inr z1) \<and> Zone_insert z1 r = Some (Inr z2)
        \<and> length (nsec z1) < 2147483648"
  then show "nsec z2 = nsec z1"
    using second_insert_keeps_nsec [of z r z1 z2] by simp
next
  fix z z1 z2 :: zone and r
  define c where "c = canonical r"
  assume "reachable z \<and> Zone_insert z r = Some (Inr z1) \<and> Zone_insert z1 r = Some (Inr z2)
        \<and> \<not> isWild (rname (canonical r)) \<and> isFQDN (rname (canonical r))
        \<and> is_u16 (rtype (canonical r))
        \<and> (rtype (canonical r) = types_CNAME
             \<or> stored z (rname (canonical r)) types_CNAME = [])"
  then have rz: "reachable z" and i1: "Zone_insert z r = Some (Inr z1)"
    and i2: "Zone_insert z1 r = Some (Inr z2)"
    and nw: "\<not> isWild (rname c)" and fq: "isFQDN (rname c)" and u: "is_u16 (rtype c)"
    and cn: "rtype c = types_CNAME \<or> stored z (rname c) types_CNAME = []"
    by (simp_all add: c_def)
  from rz i1 have r1: "reachable z1" by (rule reachable.ins)
  from r1 i2 have r2: "reachable z2" by (rule reachable.ins)
  have s1: "stored z1 (rname c) (rtype c) = stored z (rname c) (rtype c) @ [c]"
    using stored_insert [OF i1] by (simp add: c_def)
  have s2: "stored z2 (rname c) (rtype c) = stored z (rname c) (rtype c) @ [c, c]"
    using stored_insert [OF i2, of "rname c" "rtype c"] s1 by (simp add: c_def)
  have c1: "rtype c = types_CNAME \<or> stored z1 (rname c) types_CNAME = []"
    using cn stored_insert [OF i1, of "rname c" types_CNAME] by (auto simp: c_def)
  have c2: "rtype c = types_CNAME \<or> stored z2 (rname c) types_CNAME = []"
    using c1 stored_insert [OF i2, of "rname c" types_CNAME] by (auto simp: c_def)
  have n1: "stored z1 (rname c) (rtype c) \<noteq> []" using s1 by simp
  have n2: "stored z2 (rname c) (rtype c) \<noteq> []" using s2 by simp
  from get_stored [OF r1 nw fq u c1 n1, of sg] s1
  have g1: "Zone_get sg z1 (rname c) (rtype c)
      = Inr (stored z (rname c) (rtype c) @ [c]
             @ sig_tail sg z1 (rname c) (rtype c) (stored z (rname c) (rtype c) @ [c]))"
    by simp
  from get_stored [OF r2 nw fq u c2 n2, of sg] s2
  have g2: "Zone_get sg z2 (rname c) (rtype c)
      = Inr (stored z (rname c) (rtype c) @ [c, c]
             @ sig_tail sg z2 (rname c) (rtype c) (stored z (rname c) (rtype c) @ [c, c]))"
    by simp
  from g1 show "Zone_get sg z1 (rname (canonical r)) (rtype (canonical r))
          = Inr (stored z (rname (canonical r)) (rtype (canonical r)) @ [canonical r]
                 @ sig_tail sg z1 (rname (canonical r)) (rtype (canonical r))
                     (stored z (rname (canonical r)) (rtype (canonical r)) @ [canonical r]))"
    unfolding c_def .
  from g2 show "Zone_get sg z2 (rname (canonical r)) (rtype (canonical r))
          = Inr (stored z (rname (canonical r)) (rtype (canonical r))
                 @ [canonical r, canonical r]
                 @ sig_tail sg z2 (rname (canonical r)) (rtype (canonical r))
                     (stored z (rname (canonical r)) (rtype (canonical r))
                      @ [canonical r, canonical r]))"
    unfolding c_def .
next
  fix z :: zone and n t
  assume "reachable z \<and> \<not> isWild n \<and> isFQDN n \<and> is_u16 t
        \<and> (t = types_CNAME \<or> stored z n types_CNAME = []) \<and> stored z n t \<noteq> []"
  then show "Zone_get sg z n t = Inr (stored z n t @ sig_tail sg z n t (stored z n t))"
    using get_stored [of z n t sg] by blast
next
  fix z :: zone
  assume "reachable z \<and> length (nsec z) < 2147483648"
  then show "distinct (nsec z)"
    using reachable_nsec_inv [of z] by (auto simp: nsec_inv_def intro: name_sorted_distinct)
qed

theorem insert_twice_appends_witness:
  "(case Zone_new (Some ''example.'') of
      Inr z0 \<Rightarrow>
        (case Zone_insert z0 (rr_in ''a.example.'' types_A (OtherData ''1.2.3.4'')) of
           Some (Inr z1) \<Rightarrow>
             (case Zone_insert z1 (rr_in ''a.example.'' types_A (OtherData ''1.2.3.4'')) of
                Some (Inr z2) \<Rightarrow>
                  stored z1 ''a.example.'' types_A
                    = [rr_in ''a.example.'' types_A (OtherData ''1.2.3.4'')]
                  \<and> stored z2 ''a.example.'' types_A = twice_records
                  \<and> stored_sigs z2 ''a.example.'' (Some types_A) = []
                  \<and> nsec z2 = []
                  \<and> Zone_get example_signer z1 ''a.example.'' types_A
                      = Inr [rr_in ''a.example.'' types_A (OtherData ''1.2.3.4'')]
                  \<and> Zone_get example_signer z2 ''a.example.'' types_A = Inr twice_records
              | _ \<Rightarrow> False)
         | _ \<Rightarrow> False)
    | _ \<Rightarrow> False)
   \<and> (case Zone_new (Some ''example.'') of
      Inr z \<Rightarrow>
        (case Zone_insert (setZSK z ''private'' example_key)
                (rr_in ''a.example.'' types_A (OtherData ''1.2.3.4'')) of
           Some (Inr z1) \<Rightarrow>
             (case Zone_insert z1 (rr_in ''a.example.'' types_A (OtherData ''1.2.3.4'')) of
                Some (Inr z2) \<Rightarrow>
                  zskkey z2 = Some example_key
                  \<and> Zone_get example_signer z1 ''a.example.'' types_A
                      = Inr [rr_in ''a.example.'' types_A (OtherData ''1.2.3.4''), rrsig_a]
                  \<and> Zone_get example_signer z2 ''a.example.'' types_A
                      = Inr (twice_records @ [rrsig_a])
              | _ \<Rightarrow> False)
         | _ \<Rightarrow> False)
    | _ \<Rightarrow> False)
   \<and> (case load ''example.'' [rr_in ''a.example.'' types_A (OtherData ''1.2.3.4'')] of
      Some (Inr z0) \<Rightarrow>
        (case Zone_insert z0 rrsig_a of
           Some (Inr z1) \<Rightarrow>
             (case Zone_insert z1 rrsig_a of
                Some (Inr z2) \<Rightarrow>
                  stored z2 ''a.example.'' types_RRSIG = [rrsig_a, rrsig_a]
                  \<and> stored_sigs z1 ''a.example.'' (Some types_A) = [rrsig_a]
                  \<and> stored_sigs z2 ''a.example.'' (Some types_A) = [rrsig_a, rrsig_a]
                  \<and> stored z2 ''a.example.'' types_A
                      = [rr_in ''a.example.'' types_A (OtherData ''1.2.3.4'')]
                  \<and> Zone_get example_signer z1 ''a.example.'' types_A
                      = Inr [rr_in ''a.example.'' types_A (OtherData ''1.2.3.4''), rrsig_a]
                  \<and> Zone_get example_signer z2 ''a.example.'' types_A
                      = Inr [rr_in ''a.example.'' types_A (OtherData ''1.2.3.4''),
                             rrsig_a, rrsig_a]
                  \<and> Zone_get example_signer z2 ''a.example.'' types_RRSIG
                      = Inr [rrsig_a, rrsig_a]
              | _ \<Rightarrow> False)
         | _ \<Rightarrow> False)
    | _ \<Rightarrow> False)
   \<and> (case Zone_new (Some ''.'') of
      Inr z0 \<Rightarrow>
        (case Zone_insert z0 (rr_in ''.'' types_NSEC (OtherData ''com.'')) of
           Some (Inr z1) \<Rightarrow>
             (case Zone_insert z1 (rr_in ''.'' types_NSEC (OtherData ''com.'')) of
                Some (Inr z2) \<Rightarrow> nsec z1 = [''.''] \<and> nsec z2 = [''.'']
              | _ \<Rightarrow> False)
         | _ \<Rightarrow> False)
    | _ \<Rightarrow> False)
   \<and> (case load ''.'' (root_zone_records @ root_zone_records) of
         Some (Inr z) \<Rightarrow> nsec z = [''.'', ''com.''] \<and> distinct (nsec z)
       | _ \<Rightarrow> False)"
proof -
  note T1 = insert_twice_appends [where sg = example_signer, THEN conjunct1, rule_format]
  note T2 = insert_twice_appends [where sg = example_signer, THEN conjunct2, THEN conjunct1,
      rule_format]
  note T3 = insert_twice_appends [where sg = example_signer, THEN conjunct2, THEN conjunct2,
      THEN conjunct1, rule_format]
  note T4 = insert_twice_appends [where sg = example_signer, THEN conjunct2, THEN conjunct2,
      THEN conjunct2, THEN conjunct1, rule_format]
  note T5 = insert_twice_appends [where sg = example_signer, THEN conjunct2, THEN conjunct2,
      THEN conjunct2, THEN conjunct2, rule_format]
  define a where "a = rr_in ''a.example.'' types_A (OtherData ''1.2.3.4'')"
  define s where "s = rrsig_a"
  define nx where "nx = rr_in ''.'' types_NSEC (OtherData ''com.'')"
  have ca: "canonical a = a"
    by (simp add: a_def rr_in_def canonical_def toLowerCase_def lower_char_def)
  have an: "rname a = ''a.example.''" "rtype a = types_A" by (simp_all add: a_def rr_in_def)
  have cs: "canonical s = s"
    by (simp add: s_def rrsig_a_def rr_in_def canonical_def toLowerCase_def lower_char_def)
  have sn: "rname s = ''a.example.''" "rtype s = types_RRSIG"
    "data_typeCovered (rdata s) = Some types_A"
    by (simp_all add: s_def rrsig_a_def rr_in_def)
  have cx: "canonical nx = nx"
    by (simp add: nx_def rr_in_def canonical_def toLowerCase_def lower_char_def)
  have ne: "types_A \<noteq> types_RRSIG" "types_A \<noteq> types_NSEC" "types_A \<noteq> types_CNAME"
    "types_RRSIG \<noteq> types_NSEC" "types_RRSIG \<noteq> types_CNAME" "types_RRSIG \<noteq> types_A"
    "types_CNAME \<noteq> types_RRSIG" "types_CNAME \<noteq> types_A"
    by (simp_all add: types_defs)
  have nw: "\<not> isWild ''a.example.''" by (simp add: isWild_def)
  have fq: "isFQDN ''a.example.''" by (simp add: isFQDN_def)
  have u: "is_u16 types_A" "is_u16 types_RRSIG" by (simp_all add: is_u16_def types_defs)
  have sig: "example_signer k p (a # l) = s" for k p l
    by (simp add: example_signer_def s_def rrsig_a_def an)

  have "\<exists>z0 z1 z2. Zone_new (Some ''example.'') = Inr z0
      \<and> Zone_insert z0 a = Some (Inr z1) \<and> Zone_insert z1 a = Some (Inr z2)
      \<and> stored z0 ''a.example.'' types_A = []
      \<and> stored z0 ''a.example.'' types_CNAME = []
      \<and> stored_sigs z0 ''a.example.'' (Some types_A) = []
      \<and> zskkey z0 = None \<and> nsec z0 = []"
    by (simp add: a_def stored_def stored_sigs_def build_defs query_defs util_defs types_defs)
  then obtain z0 z1 z2 where Z: "Zone_new (Some ''example.'') = Inr z0"
    and I1: "Zone_insert z0 a = Some (Inr z1)" and I2: "Zone_insert z1 a = Some (Inr z2)"
    and S0: "stored z0 ''a.example.'' types_A = []"
    and C0: "stored z0 ''a.example.'' types_CNAME = []"
    and G0: "stored_sigs z0 ''a.example.'' (Some types_A) = []"
    and K0: "zskkey z0 = None" and N0: "nsec z0 = []"
    by blast
  have R0: "reachable z0" using Z by (rule reachable.new)
  from T1 [of z0 a z1 z2 "''a.example.''" types_A "Some types_A"] I1 I2 S0 G0 K0 N0 ne
  have A1: "stored z1 ''a.example.'' types_A = [a]" "stored z2 ''a.example.'' types_A = [a, a]"
    "stored_sigs z1 ''a.example.'' (Some types_A) = []"
    "stored_sigs z2 ''a.example.'' (Some types_A) = []"
    "zskkey z1 = None" "zskkey z2 = None" "nsec z2 = []"
    by (simp_all add: ca an)
  from T3 [of z0 a z1 z2] R0 I1 I2 nw fq u C0 S0 A1
  have A3: "Zone_get example_signer z1 ''a.example.'' types_A = Inr [a]"
    "Zone_get example_signer z2 ''a.example.'' types_A = Inr [a, a]"
    by (simp_all add: ca an sig_tail_def)

  have "\<exists>y y0 y1 y2. Zone_new (Some ''example.'') = Inr y
      \<and> y0 = setZSK y ''private'' example_key
      \<and> Zone_insert y0 a = Some (Inr y1) \<and> Zone_insert y1 a = Some (Inr y2)
      \<and> stored y0 ''a.example.'' types_A = []
      \<and> stored y0 ''a.example.'' types_CNAME = []
      \<and> stored_sigs y0 ''a.example.'' (Some types_A) = []
      \<and> zskkey y0 = Some example_key \<and> zskpriv y0 = Some ''private''"
    by (simp add: a_def stored_def stored_sigs_def setZSK_def build_defs query_defs util_defs
        types_defs)
  then obtain y y0 y1 y2 where Y: "Zone_new (Some ''example.'') = Inr y"
    and Y0: "y0 = setZSK y ''private'' example_key"
    and J1: "Zone_insert y0 a = Some (Inr y1)" and J2: "Zone_insert y1 a = Some (Inr y2)"
    and SY: "stored y0 ''a.example.'' types_A = []"
    and CY: "stored y0 ''a.example.'' types_CNAME = []"
    and GY: "stored_sigs y0 ''a.example.'' (Some types_A) = []"
    and KY: "zskkey y0 = Some example_key" and PY: "zskpriv y0 = Some ''private''"
    by blast
  have RY: "reachable y0" unfolding Y0 using Y by (intro reachable.zsk reachable.new)
  from T1 [of y0 a y1 y2 "''a.example.''" types_A "Some types_A"] J1 J2 SY GY KY PY ne
  have B1: "stored_sigs y1 ''a.example.'' (Some types_A) = []"
    "stored_sigs y2 ''a.example.'' (Some types_A) = []"
    "zskkey y1 = Some example_key" "zskkey y2 = Some example_key"
    "zskpriv y1 = Some ''private''" "zskpriv y2 = Some ''private''"
    by (simp_all add: ca an)
  from T3 [of y0 a y1 y2] RY J1 J2 nw fq u CY SY B1
  have B3: "Zone_get example_signer y1 ''a.example.'' types_A = Inr [a, s]"
    "Zone_get example_signer y2 ''a.example.'' types_A = Inr [a, a, s]"
    by (simp_all add: ca an sig_tail_def sig)

  have "\<exists>w0 w1 w2. load ''example.'' [a] = Some (Inr w0)
      \<and> Zone_insert w0 s = Some (Inr w1) \<and> Zone_insert w1 s = Some (Inr w2)
      \<and> stored w0 ''a.example.'' types_A = [a]
      \<and> stored w0 ''a.example.'' types_RRSIG = []
      \<and> stored w0 ''a.example.'' types_CNAME = []
      \<and> stored_sigs w0 ''a.example.'' (Some types_A) = []
      \<and> stored_sigs w0 ''a.example.'' (Some types_RRSIG) = []
      \<and> zskkey w0 = None"
    by (simp add: a_def s_def rrsig_a_def stored_def stored_sigs_def build_defs query_defs
        util_defs types_defs)
  then obtain w0 w1 w2 where W: "load ''example.'' [a] = Some (Inr w0)"
    and L1: "Zone_insert w0 s = Some (Inr w1)" and L2: "Zone_insert w1 s = Some (Inr w2)"
    and SW: "stored w0 ''a.example.'' types_A = [a]"
    and SR: "stored w0 ''a.example.'' types_RRSIG = []"
    and CW: "stored w0 ''a.example.'' types_CNAME = []"
    and GW: "stored_sigs w0 ''a.example.'' (Some types_A) = []"
    and GR: "stored_sigs w0 ''a.example.'' (Some types_RRSIG) = []"
    and KW: "zskkey w0 = None"
    by blast
  have RW: "reachable w0" using W by (rule load_reachable)
  have RW1: "reachable w1" using RW L1 by (rule reachable.ins)
  have RW2: "reachable w2" using RW1 L2 by (rule reachable.ins)
  from T1 [of w0 s w1 w2 "''a.example.''" types_RRSIG "Some types_A"] L1 L2 SR GW KW ne
  have C1: "stored w2 ''a.example.'' types_RRSIG = [s, s]"
    "stored_sigs w1 ''a.example.'' (Some types_A) = [s]"
    "stored_sigs w2 ''a.example.'' (Some types_A) = [s, s]"
    "zskkey w1 = None" "zskkey w2 = None"
    by (simp_all add: cs sn)
  from T1 [of w0 s w1 w2 "''a.example.''" types_A "Some types_RRSIG"] L1 L2 SW GR ne
  have C2: "stored w1 ''a.example.'' types_A = [a]" "stored w2 ''a.example.'' types_A = [a]"
    "stored_sigs w1 ''a.example.'' (Some types_RRSIG) = []"
    "stored_sigs w2 ''a.example.'' (Some types_RRSIG) = []"
    by (simp_all add: cs sn)
  from T1 [of w0 s w1 w2 "''a.example.''" types_CNAME "None"] L1 L2 CW ne
  have C3: "stored w1 ''a.example.'' types_CNAME = []"
    "stored w2 ''a.example.'' types_CNAME = []"
    by (simp_all add: cs sn)
  from T4 [of w1 "''a.example.''" types_A] RW1 nw fq u C1 C2 C3
  have C4: "Zone_get example_signer w1 ''a.example.'' types_A = Inr [a, s]"
    by (simp add: sig_tail_def)
  from T4 [of w2 "''a.example.''" types_A] RW2 nw fq u C1 C2 C3
  have C5: "Zone_get example_signer w2 ''a.example.'' types_A = Inr [a, s, s]"
    by (simp add: sig_tail_def)
  from T3 [of w0 s w1 w2] RW L1 L2 nw fq u CW SR C1 C2
  have C6: "Zone_get example_signer w2 ''a.example.'' types_RRSIG = Inr [s, s]"
    by (simp add: cs sn sig_tail_def)

  have "\<exists>x0 x1 x2. Zone_new (Some ''.'') = Inr x0
      \<and> Zone_insert x0 nx = Some (Inr x1) \<and> Zone_insert x1 nx = Some (Inr x2)
      \<and> nsec x1 = [''.'']"
    by (simp add: nx_def build_defs query_defs util_defs types_defs)
  then obtain x0 x1 x2 where X: "Zone_new (Some ''.'') = Inr x0"
    and M1: "Zone_insert x0 nx = Some (Inr x1)" and M2: "Zone_insert x1 nx = Some (Inr x2)"
    and NX: "nsec x1 = [''.'']"
    by blast
  have RX: "reachable x0" using X by (rule reachable.new)
  from T2 [of x0 nx x1 x2] RX M1 M2 NX
  have D2: "nsec x2 = [''.'']" by simp

  have "\<exists>z. load ''.'' (root_zone_records @ root_zone_records) = Some (Inr z)
      \<and> nsec z = [''.'', ''com.'']"
    by (simp add: root_zone_records_def build_defs util_defs types_defs)
  then obtain z where L: "load ''.'' (root_zone_records @ root_zone_records) = Some (Inr z)"
    and N: "nsec z = [''.'', ''com.'']" by blast
  have R: "reachable z" using L by (rule load_reachable)
  from T5 [of z] R N
  have D: "distinct (nsec z)" by simp

  have PA: "(case Zone_new (Some ''example.'') of
      Inr z0 \<Rightarrow>
        (case Zone_insert z0 a of
           Some (Inr z1) \<Rightarrow>
             (case Zone_insert z1 a of
                Some (Inr z2) \<Rightarrow>
                  stored z1 ''a.example.'' types_A = [a]
                  \<and> stored z2 ''a.example.'' types_A = [a, a]
                  \<and> stored_sigs z2 ''a.example.'' (Some types_A) = []
                  \<and> nsec z2 = []
                  \<and> Zone_get example_signer z1 ''a.example.'' types_A = Inr [a]
                  \<and> Zone_get example_signer z2 ''a.example.'' types_A = Inr [a, a]
              | _ \<Rightarrow> False)
         | _ \<Rightarrow> False)
    | _ \<Rightarrow> False)"
    by (simp add: Z I1 I2 A1 A3)
  have PB: "(case Zone_new (Some ''example.'') of
      Inr z \<Rightarrow>
        (case Zone_insert (setZSK z ''private'' example_key) a of
           Some (Inr z1) \<Rightarrow>
             (case Zone_insert z1 a of
                Some (Inr z2) \<Rightarrow>
                  zskkey z2 = Some example_key
                  \<and> Zone_get example_signer z1 ''a.example.'' types_A = Inr [a, s]
                  \<and> Zone_get example_signer z2 ''a.example.'' types_A = Inr ([a, a] @ [s])
              | _ \<Rightarrow> False)
         | _ \<Rightarrow> False)
    | _ \<Rightarrow> False)"
    by (simp add: Y Y0 [symmetric] J1 J2 B1 B3)
  have PC: "(case load ''example.'' [a] of
      Some (Inr z0) \<Rightarrow>
        (case Zone_insert z0 s of
           Some (Inr z1) \<Rightarrow>
             (case Zone_insert z1 s of
                Some (Inr z2) \<Rightarrow>
                  stored z2 ''a.example.'' types_RRSIG = [s, s]
                  \<and> stored_sigs z1 ''a.example.'' (Some types_A) = [s]
                  \<and> stored_sigs z2 ''a.example.'' (Some types_A) = [s, s]
                  \<and> stored z2 ''a.example.'' types_A = [a]
                  \<and> Zone_get example_signer z1 ''a.example.'' types_A = Inr [a, s]
                  \<and> Zone_get example_signer z2 ''a.example.'' types_A = Inr [a, s, s]
                  \<and> Zone_get example_signer z2 ''a.example.'' types_RRSIG = Inr [s, s]
              | _ \<Rightarrow> False)
         | _ \<Rightarrow> False)
    | _ \<Rightarrow> False)"
    by (simp add: W L1 L2 C1 C2 C4 C5 C6)
  have PD: "(case Zone_new (Some ''.'') of
      Inr z0 \<Rightarrow>
        (case Zone_insert z0 nx of
           Some (Inr z1) \<Rightarrow>
             (case Zone_insert z1 nx of
                Some (Inr z2) \<Rightarrow> nsec z1 = [''.''] \<and> nsec z2 = [''.'']
              | _ \<Rightarrow> False)
         | _ \<Rightarrow> False)
    | _ \<Rightarrow> False)"
    by (simp add: X M1 M2 NX D2)
  have PE: "(case load ''.'' (root_zone_records @ root_zone_records) of
         Some (Inr z) \<Rightarrow> nsec z = [''.'', ''com.''] \<and> distinct (nsec z)
       | _ \<Rightarrow> False)"
    using L N D by simp
  from PA PB PC PD PE show ?thesis
    unfolding a_def s_def nx_def twice_records_def by (intro conjI)
qed

text \<open>
  C5, as claimed, says that \<^verbatim>\<open>get\<close> returns the same list after one and after two
  insertions of a record that is not an NSEC. For an A record it returns one record after
  one insertion and two after two.
\<close>

theorem insert_twice_counterexample:
  "(case load ''example.'' [rr_in ''a.example.'' types_A (OtherData ''1.2.3.4'')] of
      Some (Inr z) \<Rightarrow>
        Zone_get example_signer z ''a.example.'' types_A
          = Inr [rr_in ''a.example.'' types_A (OtherData ''1.2.3.4'')]
    | _ \<Rightarrow> False)
   \<and> (case load ''example.'' twice_records of
         Some (Inr z) \<Rightarrow>
           Zone_get example_signer z ''a.example.'' types_A
             = Inr [rr_in ''a.example.'' types_A (OtherData ''1.2.3.4''),
                    rr_in ''a.example.'' types_A (OtherData ''1.2.3.4'')]
       | _ \<Rightarrow> False)"
  by (simp add: twice_records_def build_defs query_defs util_defs types_defs)

section \<open>Queries that never return\<close>

text \<open>
  The loop of \<^verbatim>\<open>find\<close> visits the records that \<^verbatim>\<open>glue\<close> appends. When a CNAME
  at a name points to that name, every visit appends the CNAME again, the index never
  reaches the length, and \<^verbatim>\<open>find\<close>, hence \<^verbatim>\<open>query\<close>, never returns.
\<close>

lemma find_step_cycle:
  assumes m: "names z n = Some m" and cs: "rrs m types_CNAME = Some [c]"
    and c: "rname c = n" "rtype c = types_CNAME" "rdata c = TargetData n"
    and n: "\<not> isWild n" "isFQDN n"
    and nosig: "sigs m (Some types_CNAME) = None" and nokey: "zskkey z = None"
    and t: "t \<noteq> types_CNAME" "is_u16 t" "t \<noteq> 0"
  shows "find_step sg z t c an ar ns = Inr (an @ [c], ar, ns)"
proof -
  from t(3) obtain k where k: "t = Suc k" by (cases t) auto
  have e: "emit sg z m n types_CNAME [c] an = an @ [c]"
    using c n nosig nokey by (simp add: emit_def convert_def)
  have p: "Zone_push sg z n t (Some an) = Inr (an @ [c])"
    using m cs n t e by (simp add: Zone_push_def RecordMap_push_def)
  have "glue sg z (Some n) an (Some t) (Some ns) = Inr (an @ [c], Some ns)"
    using n p k by (simp add: glue_def)
  then show ?thesis using c by (simp add: find_step_def)
qed

lemma find_loop_cycle:
  assumes m: "names z n = Some m" and cs: "rrs m types_CNAME = Some [c]"
    and c: "rname c = n" "rtype c = types_CNAME" "rdata c = TargetData n"
    and n: "\<not> isWild n" "isFQDN n"
    and nosig: "sigs m (Some types_CNAME) = None" and nokey: "zskkey z = None"
    and t: "t \<noteq> types_CNAME" "is_u16 t" "t \<noteq> 0"
    and inv: "i < length an" "\<forall>x\<in>set an. x = c"
  shows "find_loop sg z t i an ar ns = None"
proof (rule ccontr)
  assume "find_loop sg z t i an ar ns \<noteq> None"
  then obtain y where y: "find_loop sg z t i an ar ns = Some y" by auto
  have "\<not> (sg' = sg \<and> z' = z \<and> t' = t \<and> i' < length an' \<and> (\<forall>x\<in>set an'. x = c))"
    if h: "find_loop sg' z' t' i' an' ar' ns' = Some y'" for sg' z' t' i' an' ar' ns' y'
  proof (rule find_loop.raw_induct
      [where P = "\<lambda>sg' z' t' i' an' ar' ns' y'.
          \<not> (sg' = sg \<and> z' = z \<and> t' = t \<and> i' < length an' \<and> (\<forall>x\<in>set an'. x = c))",
        OF _ h])
    fix f :: "signer \<Rightarrow> zone \<Rightarrow> nat \<Rightarrow> nat \<Rightarrow> rr list \<Rightarrow> rr list \<Rightarrow> rr list
        \<Rightarrow> (error + rr list \<times> rr list \<times> rr list) option"
      and sg1 z1 t1 i1 an1 ar1 ns1 y1
    assume IH: "\<And>sg2 z2 t2 i2 an2 ar2 ns2 y2. f sg2 z2 t2 i2 an2 ar2 ns2 = Some y2 \<Longrightarrow>
        \<not> (sg2 = sg \<and> z2 = z \<and> t2 = t \<and> i2 < length an2 \<and> (\<forall>x\<in>set an2. x = c))"
      and body: "(if i1 < length an1
          then case find_step sg1 z1 t1 (an1 ! i1) an1 ar1 ns1 of
                 Inl e \<Rightarrow> Some (Inl e)
               | Inr (an', ar', ns') \<Rightarrow> f sg1 z1 t1 (i1 + 1) an' ar' ns'
          else Some (Inr (an1, ar1, ns1))) = Some y1"
    show "\<not> (sg1 = sg \<and> z1 = z \<and> t1 = t \<and> i1 < length an1 \<and> (\<forall>x\<in>set an1. x = c))"
    proof
      assume a: "sg1 = sg \<and> z1 = z \<and> t1 = t \<and> i1 < length an1 \<and> (\<forall>x\<in>set an1. x = c)"
      then have el: "an1 ! i1 = c" by simp
      from a have eqs: "sg1 = sg" "z1 = z" "t1 = t" by simp_all
      have st: "find_step sg1 z1 t1 (an1 ! i1) an1 ar1 ns1 = Inr (an1 @ [c], ar1, ns1)"
        unfolding eqs el by (rule find_step_cycle [OF m cs c n nosig nokey t])
      from body a st have "f sg1 z1 t1 (i1 + 1) (an1 @ [c]) ar1 ns1 = Some y1" by simp
      from IH [OF this] a show False by simp
    qed
  qed
  from this [OF y] inv show False by simp
qed

lemma query_cycle:
  assumes m: "names z n = Some m" and cs: "rrs m types_CNAME = Some [c]"
    and c: "rname c = n" "rtype c = types_CNAME" "rdata c = TargetData n"
    and n: "\<not> isWild n" "isFQDN n"
    and nosig: "sigs m (Some types_CNAME) = None" and nokey: "zskkey z = None"
    and t: "t \<noteq> types_CNAME" "is_u16 t" "t \<noteq> 0"
  shows "query sg z n t = None"
proof -
  have e: "emit sg z m n types_CNAME [c] [] = [c]"
    using c n nosig nokey by (simp add: emit_def convert_def)
  have g: "Zone_get sg z n t = Inr [c]"
    using m cs n t e by (simp add: Zone_get_def Zone_push_def RecordMap_push_def)
  have "find_loop sg z t 0 [c] [] [] = None"
    by (rule find_loop_cycle [OF m cs c n nosig nokey t]) simp_all
  with g have "find sg z n t = None" by (simp add: find_def)
  with n t show ?thesis by (simp add: query_def Let_def)
qed

lemma query_never_returns_on_cname_cycle:
  "(case load ''example.'' cname_loop_records of
      Some (Inr z) \<Rightarrow> query example_signer z ''a.example.'' types_A = None
    | _ \<Rightarrow> False)"
proof -
  have "\<exists>z m. load ''example.'' cname_loop_records = Some (Inr z)
      \<and> names z ''a.example.'' = Some m
      \<and> rrs m types_CNAME = Some [rr_in ''a.example.'' types_CNAME (TargetData ''a.example.'')]
      \<and> sigs m (Some types_CNAME) = None \<and> zskkey z = None"
    by (simp add: cname_loop_records_def build_defs util_defs types_defs)
  then obtain z m where L: "load ''example.'' cname_loop_records = Some (Inr z)"
    and N: "names z ''a.example.'' = Some m"
    and C: "rrs m types_CNAME
        = Some [rr_in ''a.example.'' types_CNAME (TargetData ''a.example.'')]"
    and S: "sigs m (Some types_CNAME) = None" and K: "zskkey z = None"
    by blast
  have "query example_signer z ''a.example.'' types_A = None"
    by (rule query_cycle [OF N C _ _ _ _ _ S K])
      (simp_all add: rr_in_def isWild_def isFQDN_def is_u16_def types_defs)
  with L show ?thesis by simp
qed

section \<open>What \<^verbatim>\<open>lower\<close> returns on a sorted list\<close>

text \<open>
  On a sorted, non-empty list of fewer than \<open>2^31\<close> names, \<^verbatim>\<open>findLower\<close> raises
  \<^verbatim>\<open>Not an NXDOMAIN\<close> for a name whose key is stored; for a name below every stored
  name it returns \<^verbatim>\<open>null\<close>; for a name between two stored names it returns the
  greatest stored name below it; for a name above every stored name it reads past the
  end of the array and raises.
\<close>

lemma findLower_sorted:
  assumes srt: "name_sorted items" and len: "length items < 2147483648"
    and ne: "items \<noteq> []"
  shows "((\<exists>x\<in>set items. canon_key x = canon_key k) \<longrightarrow>
            findLower items k = Some (Inl NotAnNXDomain))
    \<and> ((\<forall>x\<in>set items. canon_key x < canon_key k) \<longrightarrow>
            findLower items k = Some (Inl AssertionError))
    \<and> ((\<forall>x\<in>set items. canon_key k < canon_key x) \<longrightarrow>
            findLower items k = Some (Inr None))
    \<and> ((\<forall>x\<in>set items. canon_key x \<noteq> canon_key k)
         \<and> (\<exists>x\<in>set items. canon_key x < canon_key k)
         \<and> (\<exists>x\<in>set items. canon_key k < canon_key x) \<longrightarrow>
            (\<exists>y. findLower items k = Some (Inr (Some y)) \<and> y \<in> set items
               \<and> canon_key y < canon_key k
               \<and> (\<forall>x\<in>set items. canon_key x < canon_key k \<longrightarrow> canon_key x \<le> canon_key y)))"
proof -
  from search_sorted [OF srt len, of k] obtain r where
    s: "search items k compare True = Some (Inr (int r))" and r: "r \<le> length items"
    and d: "(r < length items \<and> canon_key (items ! r) = canon_key k) \<or>
         ((\<forall>i. i < r \<longrightarrow> canon_key (items ! i) < canon_key k) \<and>
          (\<forall>i. r \<le> i \<and> i < length items \<longrightarrow> canon_key k < canon_key (items ! i)))"
    by blast
  have fl: "findLower items k =
      (case js_index items (int r) of
         None \<Rightarrow> Some (Inl AssertionError)
       | Some match \<Rightarrow>
           (let cmp = compare match k in
            if cmp = 0 then Some (Inl NotAnNXDomain)
            else if cmp < 0 then Some (Inr (Some match))
            else if int r = 0 then Some (Inr None)
            else Some (Inr (js_index items (int r - 1)))))"
    using ne s by (simp add: findLower_def)
  show ?thesis
  proof (cases "r < length items \<and> canon_key (items ! r) = canon_key k")
    case True
    then have f: "findLower items k = Some (Inl NotAnNXDomain)"
      by (simp add: fl js_index_def compare_zero)
    from True have mem: "items ! r \<in> set items" by simp
    with True have "\<not> (\<forall>x\<in>set items. canon_key x < canon_key k)"
      "\<not> (\<forall>x\<in>set items. canon_key k < canon_key x)"
      "\<not> (\<forall>x\<in>set items. canon_key x \<noteq> canon_key k)"
      by (metis less_irrefl)+
    with f show ?thesis by simp
  next
    case False
    with d have lo: "\<forall>i. i < r \<longrightarrow> canon_key (items ! i) < canon_key k"
      and hi: "\<forall>i. r \<le> i \<and> i < length items \<longrightarrow> canon_key k < canon_key (items ! i)"
      by blast+
    have absent: "\<forall>x\<in>set items. canon_key x \<noteq> canon_key k"
    proof
      fix x assume "x \<in> set items"
      then obtain j where j: "j < length items" "x = items ! j" by (auto simp: in_set_conv_nth)
      with lo hi show "canon_key x \<noteq> canon_key k"
        by (cases "j < r") (auto simp: not_less)
    qed
    show ?thesis
    proof (cases "r < length items")
      case rl: True
      from hi rl have above: "canon_key k < canon_key (items ! r)" by simp
      have up: "\<exists>x\<in>set items. canon_key k < canon_key x"
        using above rl by (metis nth_mem)
      have notall: "\<not> (\<forall>x\<in>set items. canon_key x < canon_key k)"
        using above rl by (metis nth_mem less_asym)
      show ?thesis
      proof (cases "r = 0")
        case True
        then have f: "findLower items k = Some (Inr None)"
          using rl above by (auto simp: fl js_index_def compare_zero compare_neg Let_def)
        have "\<not> (\<exists>x\<in>set items. canon_key x < canon_key k)"
        proof
          assume "\<exists>x\<in>set items. canon_key x < canon_key k"
          then obtain j where "j < length items" "canon_key (items ! j) < canon_key k"
            by (auto simp: in_set_conv_nth)
          with hi True show False by (metis less_asym le0)
        qed
        with f absent notall show ?thesis by simp
      next
        case r0: False
        then have idx: "js_index items (int r - 1) = Some (items ! (r - 1))"
          using rl by (simp add: js_index_def nat_diff_distrib' of_nat_diff)
        have f: "findLower items k = Some (Inr (Some (items ! (r - 1))))"
          using rl above r0 idx
          by (auto simp: fl js_index_def compare_zero compare_neg Let_def)
        from r0 lo have below: "canon_key (items ! (r - 1)) < canon_key k" by simp
        have mem: "items ! (r - 1) \<in> set items" using rl by simp
        have notabove: "\<not> (\<forall>x\<in>set items. canon_key k < canon_key x)"
          using below mem by (metis less_asym)
        have greatest: "\<forall>x\<in>set items. canon_key x < canon_key k
            \<longrightarrow> canon_key x \<le> canon_key (items ! (r - 1))"
        proof (intro ballI impI)
          fix x assume x: "x \<in> set items" "canon_key x < canon_key k"
          then obtain j where j: "j < length items" "x = items ! j"
            by (auto simp: in_set_conv_nth)
          have "j < r"
          proof (rule ccontr)
            assume "\<not> j < r"
            with hi j have "canon_key k < canon_key x" by simp
            with x show False by simp
          qed
          show "canon_key x \<le> canon_key (items ! (r - 1))"
          proof (cases "j = r - 1")
            case True
            with j show ?thesis by simp
          next
            case False
            with \<open>j < r\<close> have "j < r - 1" by simp
            moreover have "r - 1 < length items" using rl by simp
            ultimately have "canon_key (items ! j) < canon_key (items ! (r - 1))"
              by (rule name_sorted_nth [OF srt])
            with j show ?thesis by simp
          qed
        qed
        from f below mem greatest notall notabove absent show ?thesis by blast
      qed
    next
      case False
      with r have rl: "r = length items" by simp
      then have f: "findLower items k = Some (Inl AssertionError)"
        by (simp add: fl js_index_def)
      from lo rl have all: "\<forall>x\<in>set items. canon_key x < canon_key k"
        by (auto simp: in_set_conv_nth)
      with ne have "\<not> (\<forall>x\<in>set items. canon_key k < canon_key x)"
        "\<not> (\<exists>x\<in>set items. canon_key k < canon_key x)"
        by (metis last_in_set less_asym)+
      with f all absent show ?thesis by simp
    qed
  qed
qed

end
